theory Spec2Isabelle
  imports Main
begin

section \<open>Python text operations used by \<^verbatim>\<open>scripts/add-map.py\<close>\<close>

text \<open>
  A Python \<^verbatim>\<open>str\<close> is a sequence of code points. It is modelled as a \<^typ>\<open>string\<close>,
  one \<^typ>\<open>char\<close> per code point, so the model covers the code points below 256.
  The whitespace class of \<^verbatim>\<open>str.strip\<close> and the line boundaries of
  \<^verbatim>\<open>str.splitlines\<close> are CPython's, restricted to that range.
\<close>

abbreviation TAB :: char where "TAB \<equiv> CHR 0x09"
abbreviation LF :: char where "LF \<equiv> CHR 0x0A"
abbreviation CR :: char where "CR \<equiv> CHR 0x0D"
abbreviation DQ :: char where "DQ \<equiv> CHR 0x22"
abbreviation LBRACE :: char where "LBRACE \<equiv> CHR 0x7B"
abbreviation RBRACE :: char where "RBRACE \<equiv> CHR 0x7D"

definition is_space :: "char \<Rightarrow> bool" where
  \<comment> \<open>\<^verbatim>\<open>str.isspace\<close> on one code point: the characters \<^verbatim>\<open>strip()\<close> removes.\<close>
  "is_space c \<longleftrightarrow> c \<in> set [CHR 0x09, CHR 0x0A, CHR 0x0B, CHR 0x0C, CHR 0x0D,
       CHR 0x1C, CHR 0x1D, CHR 0x1E, CHR 0x1F, CHR 0x20, CHR 0x85, CHR 0xA0]"

definition is_linebreak :: "char \<Rightarrow> bool" where
  \<comment> \<open>The line boundaries of \<^verbatim>\<open>str.splitlines\<close>.\<close>
  "is_linebreak c \<longleftrightarrow> c \<in> set [CHR 0x0A, CHR 0x0B, CHR 0x0C, CHR 0x0D,
       CHR 0x1C, CHR 0x1D, CHR 0x1E, CHR 0x85]"

definition lstrip :: "string \<Rightarrow> string" where
  "lstrip s = dropWhile is_space s"

definition rstrip :: "string \<Rightarrow> string" where
  "rstrip s = rev (dropWhile is_space (rev s))"

definition strip :: "string \<Rightarrow> string" where
  "strip s = rstrip (lstrip s)"

definition startswith :: "string \<Rightarrow> string \<Rightarrow> bool" where
  \<comment> \<open>\<^verbatim>\<open>s.startswith(p)\<close>\<close>
  "startswith s p \<longleftrightarrow> take (length p) s = p"

definition str_count :: "string \<Rightarrow> char \<Rightarrow> int" where
  \<comment> \<open>\<^verbatim>\<open>s.count(c)\<close> for a one-character \<^verbatim>\<open>c\<close>\<close>
  "str_count s c = int (length (filter (\<lambda>x. x = c) s))"

fun split_acc :: "char \<Rightarrow> string \<Rightarrow> string \<Rightarrow> string list" where
  "split_acc sep acc [] = [acc]"
| "split_acc sep acc (x # xs) =
     (if x = sep then acc # split_acc sep [] xs else split_acc sep (acc @ [x]) xs)"

definition split_on :: "string \<Rightarrow> char \<Rightarrow> string list" where
  \<comment> \<open>\<^verbatim>\<open>s.split(sep)\<close> for a one-character separator\<close>
  "split_on s sep = split_acc sep [] s"

fun splitlines_acc :: "bool \<Rightarrow> string \<Rightarrow> string \<Rightarrow> string list" where
  "splitlines_acc keepends acc [] = (if acc = [] then [] else [acc])"
| "splitlines_acc keepends acc [c] =
     (if is_linebreak c then [acc @ (if keepends then [c] else [])] else [acc @ [c]])"
| "splitlines_acc keepends acc (c # d # cs) =
     (if c = CR \<and> d = LF
      then (acc @ (if keepends then [c, d] else [])) # splitlines_acc keepends [] cs
      else if is_linebreak c
      then (acc @ (if keepends then [c] else [])) # splitlines_acc keepends [] (d # cs)
      else splitlines_acc keepends (acc @ [c]) (d # cs))"

definition splitlines :: "bool \<Rightarrow> string \<Rightarrow> string list" where
  \<comment> \<open>\<^verbatim>\<open>s.splitlines(keepends)\<close>\<close>
  "splitlines keepends s = splitlines_acc keepends [] s"

fun universal_newlines :: "string \<Rightarrow> string" where
  \<comment> \<open>Reading in text mode with \<^verbatim>\<open>newline=None\<close>: CR LF and a lone CR become LF.\<close>
  "universal_newlines [] = []"
| "universal_newlines [c] = [if c = CR then LF else c]"
| "universal_newlines (c # d # cs) =
     (if c = CR then (if d = LF then LF # universal_newlines cs
                      else LF # universal_newlines (d # cs))
      else c # universal_newlines (d # cs))"


section \<open>Errors, files and reported messages\<close>

type_synonym path = string

text \<open>
  The script raises \<^verbatim>\<open>AddMapError\<close> with one of seven messages; each message is a
  constructor, named as the specification names the failure. \<open>IndexError\<close> and
  \<open>FileNotFoundError\<close> are the two built-in exceptions the modelled statements can raise.
\<close>

datatype error =
    MissingFile path              \<comment> \<open>\<^verbatim>\<open>Missing file: {path}\<close>\<close>
  | SectionNotFound               \<comment> \<open>\<^verbatim>\<open>Could not find a "mapgroups" section.\<close>\<close>
  | MalformedSection              \<comment> \<open>\<^verbatim>\<open>Malformed "mapgroups" block (missing "{").\<close>\<close>
  | GroupNotFound string          \<comment> \<open>\<^verbatim>\<open>Group "{group_name}" not found in mapgroups.\<close>\<close>
  | MalformedGroup string         \<comment> \<open>\<^verbatim>\<open>Malformed group "{group_name}" (missing "{").\<close>\<close>
  | MalformedMapsBlock string     \<comment> \<open>\<^verbatim>\<open>Malformed "maps" block in group "{group_name}".\<close>\<close>
  | MapsBlockNotFound string      \<comment> \<open>\<^verbatim>\<open>No "maps" block found in group "{group_name}".\<close>\<close>
  | IndexError
  | FileNotFoundError path

datatype message =
    MsgSkipMap string string        \<comment> \<open>\<^verbatim>\<open>[skip] Map already present in '{group_name}': {map_key}\<close>\<close>
  | MsgBackup path                  \<comment> \<open>\<^verbatim>\<open>[backup] {backup}\<close>\<close>
  | MsgAddedMap string string bool  \<comment> \<open>\<^verbatim>\<open>[ok] Added map to '{group_name}': {map_key} (dry-run|written)\<close>\<close>
  | MsgSubscribed string bool       \<comment> \<open>\<^verbatim>\<open>[ok] Subscribed Workshop ID {workshop_id} (dry-run|written)\<close>\<close>
  | MsgSkipId string                \<comment> \<open>\<^verbatim>\<open>[skip] Workshop ID already present: {workshop_id}\<close>\<close>

datatype event =
    Exists path         \<comment> \<open>\<^verbatim>\<open>path.exists()\<close>\<close>
  | ReadText path       \<comment> \<open>\<^verbatim>\<open>path.read_text(...)\<close>\<close>
  | Copy path path      \<comment> \<open>\<^verbatim>\<open>shutil.copy2(src, dst)\<close>\<close>
  | WriteText path      \<comment> \<open>\<^verbatim>\<open>path.write_text(...)\<close>\<close>
  | Mkdir path          \<comment> \<open>\<^verbatim>\<open>path.parent.mkdir(parents=True, exist_ok=True)\<close>\<close>
  | Append path         \<comment> \<open>writing to \<^verbatim>\<open>path.open("a")\<close>\<close>
  | Print message

text \<open>
  The world is the store of regular files, each holding its decoded text, and the trace
  of what the run did, oldest event first. Directories are not part of the store:
  \<open>Mkdir\<close> is recorded in the trace only. Line terminators are written as they are
  (the POSIX behaviour of text mode).
\<close>

record world =
  files :: "path \<rightharpoonup> string"
  trace :: "event list"

definition emit :: "event \<Rightarrow> world \<Rightarrow> world" where
  "emit e w = w\<lparr>trace := trace w @ [e]\<rparr>"

definition read_lines :: "world \<Rightarrow> path \<Rightarrow> error + (world \<times> string list)" where
  "read_lines w p =
     (case files w p of
        None \<Rightarrow> Inl (MissingFile p)
      | Some text \<Rightarrow> Inr (emit (ReadText p) w, splitlines True (universal_newlines text)))"

definition write_lines :: "world \<Rightarrow> path \<Rightarrow> string list \<Rightarrow> world" where
  "write_lines w p lines = emit (WriteText p) (w\<lparr>files := (files w)(p \<mapsto> concat lines)\<rparr>)"

definition backup_path :: "path \<Rightarrow> path" where
  \<comment> \<open>\<^verbatim>\<open>path.with_suffix(path.suffix + ".bak")\<close>: the path with \<^verbatim>\<open>.bak\<close> added to its name\<close>
  "backup_path p = p @ ''.bak''"

definition backup_file :: "world \<Rightarrow> path \<Rightarrow> error + (world \<times> path)" where
  "backup_file w p =
     (let backup = backup_path p in
      case files w p of
        None \<Rightarrow> Inl (FileNotFoundError p)
      | Some text \<Rightarrow> Inr (emit (Copy p backup) (w\<lparr>files := (files w)(backup \<mapsto> text)\<rparr>), backup))"


section \<open>Block locator\<close>

function scan_mapgroups :: "string list \<Rightarrow> nat \<Rightarrow> nat option" where
  \<comment> \<open>step 1: the first line at or after \<open>i\<close> starting with \<^verbatim>\<open>"mapgroups"\<close>\<close>
  "scan_mapgroups lines i =
     (if i < length lines
      then (if startswith (lstrip (lines ! i)) ''\"mapgroups\"'' then Some i
            else scan_mapgroups lines (i + 1))
      else None)"
  by pat_completeness auto
termination
  by (relation "measure (\<lambda>(lines, i). length lines - i)") auto

function scan_open_brace :: "string list \<Rightarrow> nat \<Rightarrow> nat" where
  \<comment> \<open>\<^verbatim>\<open>while i < len(lines) and "{" not in lines[i]: i += 1\<close>\<close>
  "scan_open_brace lines i =
     (if i < length lines \<and> LBRACE \<notin> set (lines ! i) then scan_open_brace lines (i + 1) else i)"
  by pat_completeness auto
termination
  by (relation "measure (\<lambda>(lines, i). length lines - i)") auto

definition brace_step :: "int \<Rightarrow> string \<Rightarrow> int" where
  \<comment> \<open>the two guarded updates of a depth counter on one line\<close>
  "brace_step depth line =
     (let d1 = (if LBRACE \<in> set line then depth + str_count line LBRACE else depth)
      in if RBRACE \<in> set line then d1 - str_count line RBRACE else d1)"

function scan_group :: "string list \<Rightarrow> string \<Rightarrow> nat \<Rightarrow> int \<Rightarrow> nat option" where
  \<comment> \<open>step 3: the group header; \<open>None\<close> is \<^verbatim>\<open>group_start == -1\<close>\<close>
  "scan_group lines group_name i brace_depth =
     (if i < length lines \<and> 0 < brace_depth
      then (let stripped = strip (lines ! i);
                brace_depth' = brace_step brace_depth (lines ! i)
            in if startswith stripped ([DQ] @ group_name @ [DQ]) then Some i
               else scan_group lines group_name (i + 1) brace_depth')
      else None)"
  by pat_completeness auto
termination
  by (relation "measure (\<lambda>(lines, g, i, d). length lines - i)") auto

function scan_maps_close :: "string list \<Rightarrow> nat \<Rightarrow> int \<Rightarrow> nat option" where
  \<comment> \<open>the matching closing brace of the maps block; \<open>None\<close> when the loop ends without it\<close>
  "scan_maps_close lines m maps_brace_depth =
     (if m < length lines \<and> 0 < maps_brace_depth
      then (let d = maps_brace_depth + str_count (lines ! m) LBRACE - str_count (lines ! m) RBRACE
            in if d = 0 then Some m else scan_maps_close lines (m + 1) d)
      else None)"
  by pat_completeness auto
termination
  by (relation "measure (\<lambda>(lines, m, d). length lines - m)") auto

function infer_maps_indent :: "string list \<Rightarrow> nat \<Rightarrow> nat \<Rightarrow> error + string" where
  \<comment> \<open>\<^verbatim>\<open>for i in range(start_idx, end_idx)\<close>, as a recursion on \<open>start_idx\<close>\<close>
  "infer_maps_indent lines start_idx end_idx =
     (if start_idx < end_idx
      then (if start_idx < length lines
            then (let line = lines ! start_idx; stripped = strip line
                  in if (startswith stripped [DQ] \<and> DQ \<in> set stripped \<and> TAB \<in> set line)
                          \<or> TAB \<in> set line
                     then Inr (take (length line - length (lstrip line)) line)
                     else if startswith stripped [DQ] \<and> TAB \<notin> set line
                     then Inr (take (length line - length (lstrip line)) line)
                     else infer_maps_indent lines (start_idx + 1) end_idx)
            else Inl IndexError)
      else Inr (replicate 4 TAB))"
  by pat_completeness auto
termination
  by (relation "measure (\<lambda>(lines, s, e). e - s)") auto

function scan_group_body :: "string list \<Rightarrow> string \<Rightarrow> nat \<Rightarrow> int \<Rightarrow> error + (nat \<times> nat \<times> string)" where
  \<comment> \<open>step 5: the walk inside the group; returns \<open>(maps_start_idx, maps_end_idx, indent)\<close>\<close>
  "scan_group_body lines group_name j group_brace_depth =
     (if j < length lines \<and> 0 < group_brace_depth
      then (let stripped = strip (lines ! j)
            in if startswith stripped ''\"maps\"''
               then (let k = scan_open_brace lines j
                     in if k \<ge> length lines then Inl (MalformedMapsBlock group_name)
                        else (let maps_start_idx = k + 1
                              in case scan_maps_close lines maps_start_idx 1 of
                                   Some maps_end_idx \<Rightarrow>
                                     (case infer_maps_indent lines maps_start_idx maps_end_idx of
                                        Inl e \<Rightarrow> Inl e
                                      | Inr indent \<Rightarrow> Inr (maps_start_idx, maps_end_idx, indent))
                                 | None \<Rightarrow> Inl (MalformedMapsBlock group_name)))
               else scan_group_body lines group_name (j + 1)
                      (brace_step group_brace_depth (lines ! j)))
      else Inl (MapsBlockNotFound group_name))"
  by pat_completeness auto
termination
  by (relation "measure (\<lambda>(lines, g, j, d). length lines - j)") auto

definition find_group_and_maps_block ::
    "string list \<Rightarrow> string \<Rightarrow> error + (nat \<times> nat \<times> nat \<times> string)" where
  "find_group_and_maps_block lines group_name =
     (case scan_mapgroups lines 0 of
        None \<Rightarrow> Inl SectionNotFound
      | Some i \<Rightarrow>
          (let i' = scan_open_brace lines (i + 1)
           in if i' \<ge> length lines then Inl MalformedSection
              else (case scan_group lines group_name (i' + 1) 1 of
                      None \<Rightarrow> Inl (GroupNotFound group_name)
                    | Some group_start \<Rightarrow>
                        (let j = scan_open_brace lines group_start
                         in if j \<ge> length lines then Inl (MalformedGroup group_name)
                            else (case scan_group_body lines group_name (j + 1) 1 of
                                    Inl e \<Rightarrow> Inl e
                                  | Inr (maps_start, maps_end, indent) \<Rightarrow>
                                      Inr (group_start, maps_start, maps_end, indent))))))"

declare scan_mapgroups.simps [simp del] scan_open_brace.simps [simp del]
  scan_group.simps [simp del] scan_maps_close.simps [simp del]
  infer_maps_indent.simps [simp del] scan_group_body.simps [simp del]


section \<open>Entry editor\<close>

function current_maps_in_block :: "string list \<Rightarrow> nat \<Rightarrow> nat \<Rightarrow> error + string list" where
  \<comment> \<open>\<^verbatim>\<open>for i in range(start_idx, end_idx)\<close>, as a recursion on \<open>start_idx\<close>\<close>
  "current_maps_in_block lines start_idx end_idx =
     (if start_idx < end_idx
      then (if start_idx < length lines
            then (let stripped = strip (lines ! start_idx)
                  in case current_maps_in_block lines (start_idx + 1) end_idx of
                       Inl e \<Rightarrow> Inl e
                     | Inr maps \<Rightarrow>
                         (if startswith stripped [DQ] \<and> DQ \<in> set stripped
                          then Inr ((split_on stripped DQ ! 1) # maps)
                          else Inr maps))
            else Inl IndexError)
      else Inr [])"
  by pat_completeness auto
termination
  by (relation "measure (\<lambda>(lines, s, e). e - s)") auto

declare current_maps_in_block.simps [simp del]

definition format_map_key :: "string \<Rightarrow> string option \<Rightarrow> string" where
  \<comment> \<open>\<^verbatim>\<open>if workshop_id:\<close> is false for \<^verbatim>\<open>None\<close> and for the empty string\<close>
  "format_map_key map_name workshop_id =
     (case workshop_id of
        None \<Rightarrow> map_name
      | Some wid \<Rightarrow> if wid \<noteq> [] then ''workshop/'' @ wid @ ''/'' @ map_name else map_name)"

definition list_insert :: "'a list \<Rightarrow> nat \<Rightarrow> 'a \<Rightarrow> 'a list" where
  \<comment> \<open>\<^verbatim>\<open>lines.insert(i, x)\<close> for \<open>i \<ge> 0\<close>: an index past the end appends\<close>
  "list_insert xs i x = take i xs @ x # drop i xs"

definition new_entry_line :: "string \<Rightarrow> string \<Rightarrow> string" where
  "new_entry_line indent map_key = indent @ [DQ] @ map_key @ [DQ, TAB, TAB, DQ, DQ, LF]"

definition insert_map ::
    "string list \<Rightarrow> nat \<Rightarrow> nat \<Rightarrow> string \<Rightarrow> string \<Rightarrow> string \<Rightarrow> string list" where
  "insert_map lines start_idx end_idx indent map_key position =
     (let new_line = new_entry_line indent map_key
      in if position = ''start'' then list_insert lines start_idx new_line
         else list_insert lines end_idx new_line)"


section \<open>List appender\<close>

definition existing_ids :: "string \<Rightarrow> string list" where
  \<comment> \<open>\<^verbatim>\<open>line.strip() for line in text.splitlines() if line.strip()\<close>\<close>
  "existing_ids text = filter (\<lambda>s. s \<noteq> []) (map strip (splitlines False text))"

definition add_workshop_id :: "world \<Rightarrow> path \<Rightarrow> string \<Rightarrow> bool \<Rightarrow> world \<times> bool" where
  "add_workshop_id w file_path workshop_id dry_run =
     (let w1 = emit (Exists file_path) w;
          (w2, existing) =
             (case files w1 file_path of
                None \<Rightarrow> (w1, {})
              | Some raw \<Rightarrow> (emit (ReadText file_path) w1, set (existing_ids (universal_newlines raw))))
      in if workshop_id \<in> existing then (w2, False)
         else if \<not> dry_run
         then (let w3 = emit (Mkdir file_path) w2;
                   old = (case files w3 file_path of None \<Rightarrow> [] | Some raw \<Rightarrow> raw)
               in (emit (Append file_path)
                     (w3\<lparr>files := (files w3)(file_path \<mapsto> old @ workshop_id @ [LF])\<rparr>), True))
         else (w2, True))"


section \<open>The operation\<close>

definition subscribe_if_given :: "world \<Rightarrow> path \<Rightarrow> string option \<Rightarrow> bool \<Rightarrow> world" where
  \<comment> \<open>the closing \<^verbatim>\<open>if workshop_id:\<close> block of \<^verbatim>\<open>add_map_to_group\<close>\<close>
  "subscribe_if_given w subscribed_file_ids_path workshop_id dry_run =
     (case workshop_id of
        None \<Rightarrow> w
      | Some wid \<Rightarrow>
          if wid \<noteq> []
          then (let (w4, added) = add_workshop_id w subscribed_file_ids_path wid dry_run
                in if added then emit (Print (MsgSubscribed wid dry_run)) w4
                   else emit (Print (MsgSkipId wid)) w4)
          else w)"

definition add_map_to_group ::
    "world \<Rightarrow> path \<Rightarrow> path \<Rightarrow> string \<Rightarrow> string \<Rightarrow> string option \<Rightarrow> bool \<Rightarrow> string
       \<Rightarrow> error + world" where
  "add_map_to_group w gamemodes_path subscribed_file_ids_path group_name map_name workshop_id
       dry_run position =
     (case read_lines w gamemodes_path of
        Inl e \<Rightarrow> Inl e
      | Inr (w0, lines) \<Rightarrow>
     (let map_key = format_map_key map_name workshop_id in
      case find_group_and_maps_block lines group_name of
        Inl e \<Rightarrow> Inl e
      | Inr (group_start, maps_start, maps_end, indent) \<Rightarrow>
     (case current_maps_in_block lines maps_start maps_end of
        Inl e \<Rightarrow> Inl e
      | Inr maps_list \<Rightarrow>
     (case (if map_key \<in> set maps_list
            then Inr (emit (Print (MsgSkipMap group_name map_key)) w0)
            else (case (if \<not> dry_run
                        then (case backup_file w0 gamemodes_path of
                                Inl e \<Rightarrow> Inl e
                              | Inr (wb, backup) \<Rightarrow> Inr (emit (Print (MsgBackup backup)) wb))
                        else Inr w0) of
                    Inl e \<Rightarrow> Inl e
                  | Inr w1 \<Rightarrow>
                      (let lines' = insert_map lines maps_start maps_end indent map_key position;
                           w2 = (if \<not> dry_run then write_lines w1 gamemodes_path lines' else w1)
                       in Inr (emit (Print (MsgAddedMap group_name map_key dry_run)) w2)))) of
        Inl e \<Rightarrow> Inl e
      | Inr w3 \<Rightarrow> Inr (subscribe_if_given w3 subscribed_file_ids_path workshop_id dry_run)))))"

definition resolve_paths :: "bool \<Rightarrow> path \<times> path" where
  "resolve_paths use_custom =
     (if use_custom
      then (''custom_files/gamemodes_server.txt'', ''custom_files/subscribed_file_ids.txt'')
      else (''game/csgo/gamemodes_server.txt'', ''game/csgo/subscribed_file_ids.txt''))"

section \<open>Reading the trace\<close>

definition event_paths :: "event \<Rightarrow> path list" where
  "event_paths e = (case e of Exists p \<Rightarrow> [p] | ReadText p \<Rightarrow> [p] | Copy p q \<Rightarrow> [p, q]
      | WriteText p \<Rightarrow> [p] | Mkdir p \<Rightarrow> [p] | Append p \<Rightarrow> [p] | Print m \<Rightarrow> [])"

definition new_events :: "world \<Rightarrow> world \<Rightarrow> event list" where
  "new_events w w' = drop (length (trace w)) (trace w')"

section \<open>A worked document\<close>

definition example_doc :: "string list" where
  \<open>example_doc =
    [''"GameModes_Server.txt"'' @ [LF],
     ''{'' @ [LF],
     [TAB] @ ''"mapgroups"'' @ [LF],
     [TAB] @ ''{'' @ [LF],
     [TAB, TAB] @ ''"mg_active"'' @ [LF],
     [TAB, TAB] @ ''{'' @ [LF],
     [TAB, TAB, TAB] @ ''"name"'' @ [TAB, TAB] @ ''"mg_active"'' @ [LF],
     [TAB, TAB, TAB] @ ''"maps"'' @ [LF],
     [TAB, TAB, TAB] @ ''{'' @ [LF],
     [TAB, TAB, TAB, TAB] @ ''"de_inferno"'' @ [TAB, TAB] @ ''""'' @ [LF],
     [TAB, TAB, TAB, TAB] @ ''"workshop/12345/de_dust2"'' @ [TAB, TAB] @ ''""'' @ [LF],
     [TAB, TAB, TAB] @ ''}'' @ [LF],
     [TAB, TAB] @ ''}'' @ [LF],
     [TAB] @ ''}'' @ [LF],
     ''}'' @ [LF]]\<close>

definition example_world :: world where
  "example_world = \<lparr>files = [''game/csgo/gamemodes_server.txt'' \<mapsto> concat example_doc], trace = []\<rparr>"

section \<open>Notions used to state the claims about a block\<close>

definition block_lines :: "string list \<Rightarrow> nat \<Rightarrow> nat \<Rightarrow> string list" where
  \<comment> \<open>the lines at indices \<open>start_idx \<le> i < end_idx\<close>, the range both \<^verbatim>\<open>for\<close> statements walk\<close>
  "block_lines lines start_idx end_idx = take (end_idx - start_idx) (drop start_idx lines)"

definition quoted_entry :: "string \<Rightarrow> bool" where
  \<comment> \<open>the trimmed content starts with a double quote\<close>
  "quoted_entry line \<longleftrightarrow> startswith (strip line) [DQ]"

definition indent_donor :: "string \<Rightarrow> bool" where
  \<comment> \<open>the lines either branch of \<^verbatim>\<open>infer_maps_indent\<close> returns on\<close>
  "indent_donor line \<longleftrightarrow> TAB \<in> set line \<or> quoted_entry line"

definition leading_whitespace :: "string \<Rightarrow> string" where
  "leading_whitespace line = takeWhile is_space line"

definition indent_doc :: "string list" where
  \<open>indent_doc =
    [''"mapgroups"'' @ [LF],
     ''{'' @ [LF],
     [TAB] @ ''"mg_active"'' @ [LF],
     [TAB] @ ''{'' @ [LF],
     [TAB, TAB] @ ''"maps"'' @ [LF],
     [TAB, TAB] @ ''{'' @ [LF],
     [TAB, TAB] @ ''// competitive maps'' @ [LF],
     [TAB, TAB, TAB] @ ''"de_dust2"'' @ [TAB, TAB] @ ''""'' @ [LF],
     [TAB, TAB] @ ''}'' @ [LF],
     [TAB] @ ''}'' @ [LF],
     ''}'' @ [LF]]\<close>


section \<open>Notions used to state the claims about the section\<close>

definition group_header :: "string \<Rightarrow> string \<Rightarrow> bool" where
  \<comment> \<open>the trimmed content starts with the quoted group name\<close>
  "group_header group_name line \<longleftrightarrow> startswith (strip line) ([DQ] @ group_name @ [DQ])"




section \<open>Notions used to state the claims about the list file\<close>

definition file_text :: "world \<Rightarrow> path \<Rightarrow> string" where
  \<comment> \<open>the text of a file, empty when the file is absent\<close>
  "file_text w p = (case files w p of None \<Rightarrow> [] | Some raw \<Rightarrow> raw)"

definition token_clean :: "string \<Rightarrow> bool" where
  \<comment> \<open>a non-empty token that \<^verbatim>\<open>strip()\<close> leaves as it is and that holds no line boundary\<close>
  "token_clean t \<longleftrightarrow> t \<noteq> [] \<and> strip t = t \<and> (\<forall>c \<in> set t. \<not> is_linebreak c)"

definition ends_with_newline :: "string \<Rightarrow> bool" where
  \<comment> \<open>empty, or ending with a line terminator\<close>
  "ends_with_newline s \<longleftrightarrow> s = [] \<or> is_linebreak (last s)"

definition appends :: "event list \<Rightarrow> path list" where
  \<comment> \<open>the paths a trace appended to\<close>
  "appends es = concat (map (\<lambda>e. case e of Append p \<Rightarrow> [p] | _ \<Rightarrow> []) es)"

definition probed :: "world \<Rightarrow> path \<Rightarrow> world" where
  \<comment> \<open>the world after \<^verbatim>\<open>add_workshop_id\<close> has looked at the list file\<close>
  "probed w p =
     (case files w p of
        None \<Rightarrow> emit (Exists p) w
      | Some raw \<Rightarrow> emit (ReadText p) (emit (Exists p) w))"

section \<open>What a run reports\<close>

datatype outcome = MapInserted | MapPresent | IdAdded | IdPresent

definition outcome_of :: "event \<Rightarrow> outcome list" where
  \<comment> \<open>what a printed line reports, whatever its \<^verbatim>\<open>(dry-run|written)\<close> suffix\<close>
  "outcome_of e =
     (case e of
        Print (MsgSkipMap g k) \<Rightarrow> [MapPresent]
      | Print (MsgAddedMap g k d) \<Rightarrow> [MapInserted]
      | Print (MsgSubscribed t d) \<Rightarrow> [IdAdded]
      | Print (MsgSkipId t) \<Rightarrow> [IdPresent]
      | _ \<Rightarrow> [])"

definition outcomes :: "event list \<Rightarrow> outcome list" where
  "outcomes es = concat (map outcome_of es)"

definition reported :: "world \<Rightarrow> error + world \<Rightarrow> error + outcome list" where
  \<comment> \<open>the outcome of a run started in \<open>w\<close>: its error, or what its new events report\<close>
  "reported w r = (case r of Inl e \<Rightarrow> Inl e | Inr w' \<Rightarrow> Inr (outcomes (new_events w w')))"

definition written_paths :: "event list \<Rightarrow> path list" where
  \<comment> \<open>the paths a trace created or modified\<close>
  "written_paths es =
     concat (map (\<lambda>e. case e of Copy p q \<Rightarrow> [q] | WriteText p \<Rightarrow> [p] | Mkdir p \<Rightarrow> [p]
                        | Append p \<Rightarrow> [p] | _ \<Rightarrow> []) es)"

definition id_outcome :: "string \<Rightarrow> string option \<Rightarrow> outcome list" where
  \<comment> \<open>what the subscription step reports for a list file holding the given text\<close>
  "id_outcome raw workshop_id =
     (case workshop_id of
        None \<Rightarrow> []
      | Some t \<Rightarrow> if t = [] then []
                  else if t \<in> set (existing_ids (universal_newlines raw)) then [IdPresent]
                  else [IdAdded])"

section \<open>Notions used to state idempotence\<close>

definition key_plain :: "string \<Rightarrow> bool" where
  \<comment> \<open>no double quote, brace or line boundary in the key\<close>
  "key_plain k \<longleftrightarrow> (\<forall>c \<in> set k. c \<noteq> DQ \<and> c \<noteq> LBRACE \<and> c \<noteq> RBRACE \<and> \<not> is_linebreak c)"

definition line_shaped :: "string \<Rightarrow> bool" where
  \<comment> \<open>one line as \<^verbatim>\<open>splitlines(keepends=True)\<close> returns it, read through newline translation\<close>
  "line_shaped l \<longleftrightarrow> l \<noteq> [] \<and> CR \<notin> set l \<and> (\<forall>c \<in> set (butlast l). \<not> is_linebreak c)"

definition doc_shaped :: "string list \<Rightarrow> bool" where
  \<comment> \<open>every line is one line, and every line but the last ends with its terminator\<close>
  "doc_shaped ls \<longleftrightarrow>
     (\<forall>l \<in> set ls. line_shaped l) \<and> (\<forall>l \<in> set (butlast ls). is_linebreak (last l))"

definition entry_keys :: "string list \<Rightarrow> string list" where
  \<comment> \<open>the keys \<^verbatim>\<open>current_maps_in_block\<close> collects from the given lines\<close>
  "entry_keys ls =
     map (\<lambda>l. split_on (strip l) DQ ! 1)
       (filter (\<lambda>l. startswith (strip l) [DQ] \<and> DQ \<in> set (strip l)) ls)"

fun close_offset :: "string list \<Rightarrow> int \<Rightarrow> nat option" where
  \<comment> \<open>the walk of \<^verbatim>\<open>scan_maps_close\<close> on the lines still ahead, counting from 0\<close>
  "close_offset [] d = None"
| "close_offset (l # ls) d =
     (if 0 < d
      then (let d' = d + str_count l LBRACE - str_count l RBRACE
            in if d' = 0 then Some 0 else map_option Suc (close_offset ls d'))
      else None)"

definition add_map_twice ::
    "world \<Rightarrow> path \<Rightarrow> path \<Rightarrow> string \<Rightarrow> string \<Rightarrow> string option \<Rightarrow> bool \<Rightarrow> string
       \<Rightarrow> error + world" where
  \<comment> \<open>the operation run a second time, with the same arguments, after a run that returned\<close>
  "add_map_twice w gm sub g name wid dry pos =
     (case add_map_to_group w gm sub g name wid dry pos of
        Inl e \<Rightarrow> Inl e
      | Inr w1 \<Rightarrow> add_map_to_group w1 gm sub g name wid dry pos)"

definition primary_text :: "error + world \<Rightarrow> path \<Rightarrow> string option" where
  \<comment> \<open>the text a run leaves in a file; \<open>None\<close> when it failed or the file is absent\<close>
  "primary_text r p = (case r of Inl e \<Rightarrow> None | Inr w \<Rightarrow> files w p)"

section \<open>The locator returns a span inside the document\<close>

lemma scan_open_brace_step:
  "i < length lines \<Longrightarrow> LBRACE \<notin> set (lines ! i) \<Longrightarrow>
     scan_open_brace lines i = scan_open_brace lines (i + 1)"
  by (subst scan_open_brace.simps) simp

lemma scan_open_brace_stop:
  "\<not> (i < length lines \<and> LBRACE \<notin> set (lines ! i)) \<Longrightarrow> scan_open_brace lines i = i"
  by (subst scan_open_brace.simps) auto

lemma scan_open_brace_ge: "i \<le> scan_open_brace lines i"
proof (induction lines i rule: scan_open_brace.induct)
  case (1 lines i)
  show ?case
  proof (cases "i < length lines \<and> LBRACE \<notin> set (lines ! i)")
    case True
    with 1 have "i + 1 \<le> scan_open_brace lines (i + 1)" by simp
    with True show ?thesis by (simp add: scan_open_brace_step)
  next
    case False
    then show ?thesis by (simp add: scan_open_brace_stop)
  qed
qed

lemma scan_open_brace_found:
  "scan_open_brace lines i < length lines \<Longrightarrow> LBRACE \<in> set (lines ! scan_open_brace lines i)"
proof (induction lines i rule: scan_open_brace.induct)
  case (1 lines i)
  show ?case
  proof (cases "i < length lines \<and> LBRACE \<notin> set (lines ! i)")
    case True
    then have eq: "scan_open_brace lines i = scan_open_brace lines (i + 1)"
      by (simp add: scan_open_brace_step)
    with 1 True show ?thesis by simp
  next
    case False
    then have eq: "scan_open_brace lines i = i"
      by (simp add: scan_open_brace_stop)
    with "1.prems" False show ?thesis by auto
  qed
qed

lemma scan_maps_close_stop:
  "\<not> (m < length lines \<and> 0 < d) \<Longrightarrow> scan_maps_close lines m d = None"
  by (subst scan_maps_close.simps) auto

lemma scan_maps_close_hit:
  "m < length lines \<Longrightarrow> 0 < d \<Longrightarrow>
   d + str_count (lines ! m) LBRACE - str_count (lines ! m) RBRACE = 0 \<Longrightarrow>
     scan_maps_close lines m d = Some m"
  by (subst scan_maps_close.simps) (simp add: Let_def)

lemma scan_maps_close_step:
  "m < length lines \<Longrightarrow> 0 < d \<Longrightarrow>
   d + str_count (lines ! m) LBRACE - str_count (lines ! m) RBRACE \<noteq> 0 \<Longrightarrow>
     scan_maps_close lines m d =
       scan_maps_close lines (m + 1) (d + str_count (lines ! m) LBRACE - str_count (lines ! m) RBRACE)"
  by (subst scan_maps_close.simps) (simp add: Let_def)

lemma scan_maps_close_bounds:
  "scan_maps_close lines m d = Some e \<Longrightarrow> m \<le> e \<and> e < length lines"
proof (induction lines m d rule: scan_maps_close.induct)
  case (1 lines m d)
  show ?case
  proof (cases "m < length lines \<and> 0 < d")
    case False
    with "1.prems" show ?thesis by (simp add: scan_maps_close_stop)
  next
    case run: True
    show ?thesis
    proof (cases "d + str_count (lines ! m) LBRACE - str_count (lines ! m) RBRACE = 0")
      case True
      with run "1.prems" show ?thesis by (simp add: scan_maps_close_hit)
    next
      case False
      with run "1.prems" have "scan_maps_close lines (m + 1)
          (d + str_count (lines ! m) LBRACE - str_count (lines ! m) RBRACE) = Some e"
        by (simp add: scan_maps_close_step)
      from "1.IH" [OF run refl False this] show ?thesis by simp
    qed
  qed
qed

lemma scan_group_stop:
  "\<not> (i < length lines \<and> 0 < d) \<Longrightarrow> scan_group lines g i d = None"
  by (subst scan_group.simps) auto

lemma scan_group_hit:
  "i < length lines \<Longrightarrow> 0 < d \<Longrightarrow> startswith (strip (lines ! i)) ([DQ] @ g @ [DQ]) \<Longrightarrow>
     scan_group lines g i d = Some i"
  by (subst scan_group.simps) (simp add: Let_def)

lemma scan_group_step:
  "i < length lines \<Longrightarrow> 0 < d \<Longrightarrow> \<not> startswith (strip (lines ! i)) ([DQ] @ g @ [DQ]) \<Longrightarrow>
     scan_group lines g i d = scan_group lines g (i + 1) (brace_step d (lines ! i))"
  by (subst scan_group.simps) (simp add: Let_def)

lemma scan_group_bounds:
  "scan_group lines g i d = Some k \<Longrightarrow> i \<le> k \<and> k < length lines"
proof (induction lines g i d rule: scan_group.induct)
  case (1 lines g i d)
  show ?case
  proof (cases "i < length lines \<and> 0 < d")
    case False
    with "1.prems" show ?thesis by (simp add: scan_group_stop)
  next
    case run: True
    show ?thesis
    proof (cases "startswith (strip (lines ! i)) ([DQ] @ g @ [DQ])")
      case True
      with run "1.prems" show ?thesis by (simp add: scan_group_hit)
    next
      case False
      with run "1.prems" have "scan_group lines g (i + 1) (brace_step d (lines ! i)) = Some k"
        by (simp add: scan_group_step)
      from "1.IH" [OF run refl refl False this] show ?thesis by simp
    qed
  qed
qed


lemma scan_mapgroups_stop: "\<not> i < length lines \<Longrightarrow> scan_mapgroups lines i = None"
  by (subst scan_mapgroups.simps) simp

lemma scan_mapgroups_hit:
  "i < length lines \<Longrightarrow> startswith (lstrip (lines ! i)) ''\"mapgroups\"'' \<Longrightarrow>
     scan_mapgroups lines i = Some i"
  by (subst scan_mapgroups.simps) simp

lemma scan_mapgroups_step:
  "i < length lines \<Longrightarrow> \<not> startswith (lstrip (lines ! i)) ''\"mapgroups\"'' \<Longrightarrow>
     scan_mapgroups lines i = scan_mapgroups lines (i + 1)"
  by (subst scan_mapgroups.simps) simp

lemma scan_group_body_stop:
  "\<not> (j < length lines \<and> 0 < d) \<Longrightarrow> scan_group_body lines g j d = Inl (MapsBlockNotFound g)"
  by (subst scan_group_body.simps) auto

lemma scan_group_body_step:
  "j < length lines \<Longrightarrow> 0 < d \<Longrightarrow> \<not> startswith (strip (lines ! j)) ''\"maps\"'' \<Longrightarrow>
     scan_group_body lines g j d = scan_group_body lines g (j + 1) (brace_step d (lines ! j))"
  by (subst scan_group_body.simps) (simp add: Let_def)

lemma scan_group_body_hit:
  "j < length lines \<Longrightarrow> 0 < d \<Longrightarrow> startswith (strip (lines ! j)) ''\"maps\"'' \<Longrightarrow>
     scan_group_body lines g j d =
       (if scan_open_brace lines j \<ge> length lines then Inl (MalformedMapsBlock g)
        else (case scan_maps_close lines (scan_open_brace lines j + 1) 1 of
                Some e \<Rightarrow> (case infer_maps_indent lines (scan_open_brace lines j + 1) e of
                             Inl err \<Rightarrow> Inl err
                           | Inr indent \<Rightarrow> Inr (scan_open_brace lines j + 1, e, indent))
              | None \<Rightarrow> Inl (MalformedMapsBlock g)))"
  by (subst scan_group_body.simps) (simp add: Let_def split: option.splits sum.splits)

lemma scan_group_body_bounds:
  "scan_group_body lines g j d = Inr (ms, me, ind) \<Longrightarrow>
     j < ms \<and> ms \<le> me \<and> me < length lines \<and> LBRACE \<in> set (lines ! (ms - 1))
       \<and> infer_maps_indent lines ms me = Inr ind"
proof (induction lines g j d rule: scan_group_body.induct)
  case (1 lines g j d)
  show ?case
  proof (cases "j < length lines \<and> 0 < d")
    case False
    with "1.prems" show ?thesis by (simp add: scan_group_body_stop)
  next
    case run: True
    show ?thesis
    proof (cases "startswith (strip (lines ! j)) ''\"maps\"''")
      case True
      let ?k = "scan_open_brace lines j"
      from run True "1.prems" have k: "?k < length lines"
        by (simp add: scan_group_body_hit split: if_splits)
      with run True "1.prems" obtain e where e: "scan_maps_close lines (?k + 1) 1 = Some e"
        and rest: "(case infer_maps_indent lines (?k + 1) e of
                     Inl err \<Rightarrow> Inl err
                   | Inr indent \<Rightarrow> Inr (?k + 1, e, indent)) = Inr (ms, me, ind)"
        by (simp add: scan_group_body_hit split: option.splits)
      from rest have ind: "infer_maps_indent lines (?k + 1) e = Inr ind"
        and ms: "ms = ?k + 1" and me: "me = e"
        by (simp_all split: sum.splits)
      from scan_maps_close_bounds [OF e] scan_open_brace_ge [of j lines]
        scan_open_brace_found [OF k] ind ms me
      show ?thesis by simp
    next
      case False
      with run "1.prems"
      have rec: "scan_group_body lines g (j + 1) (brace_step d (lines ! j)) = Inr (ms, me, ind)"
        by (simp add: scan_group_body_step)
      from "1.IH" [OF run refl False rec] show ?thesis by simp
    qed
  qed
qed

lemma locate_unfold:
  assumes "find_group_and_maps_block lines g = Inr (gs, ms, me, ind)"
  obtains i where "scan_mapgroups lines 0 = Some i"
    and "scan_open_brace lines (i + 1) < length lines"
    and "scan_group lines g (scan_open_brace lines (i + 1) + 1) 1 = Some gs"
    and "scan_open_brace lines gs < length lines"
    and "scan_group_body lines g (scan_open_brace lines gs + 1) 1 = Inr (ms, me, ind)"
proof -
  from assms obtain i where i: "scan_mapgroups lines 0 = Some i"
    by (auto simp: find_group_and_maps_block_def split: option.splits)
  with assms have b: "scan_open_brace lines (i + 1) < length lines"
    by (auto simp: find_group_and_maps_block_def Let_def split: if_splits)
  with assms i obtain gs' where gs': "scan_group lines g (scan_open_brace lines (i + 1) + 1) 1 = Some gs'"
    by (auto simp: find_group_and_maps_block_def Let_def split: option.splits)
  with assms i b have j: "scan_open_brace lines gs' < length lines"
    by (auto simp: find_group_and_maps_block_def Let_def split: if_splits)
  with assms i b gs'
  have "scan_group_body lines g (scan_open_brace lines gs' + 1) 1 = Inr (ms, me, ind) \<and> gs = gs'"
    by (auto simp: find_group_and_maps_block_def Let_def split: sum.splits)
  with i b gs' j that show thesis by blast
qed

lemma locate_bounds:
  assumes "find_group_and_maps_block lines g = Inr (gs, ms, me, ind)"
  shows "gs < ms \<and> ms \<le> me \<and> me < length lines \<and> LBRACE \<in> set (lines ! (ms - 1))
           \<and> infer_maps_indent lines ms me = Inr ind"
proof -
  from assms obtain i where
    body: "scan_group_body lines g (scan_open_brace lines gs + 1) 1 = Inr (ms, me, ind)"
    by (rule locate_unfold)
  from scan_group_body_bounds [OF body] scan_open_brace_ge [of gs lines]
  show ?thesis by simp
qed

lemma str_count_zero_iff: "str_count s c = 0 \<longleftrightarrow> c \<notin> set s"
  by (induction s) (auto simp: str_count_def)

lemma str_count_nonneg: "0 \<le> str_count s c"
  by (simp add: str_count_def)

lemma scan_maps_close_rbrace:
  "scan_maps_close lines m d = Some e \<Longrightarrow> RBRACE \<in> set (lines ! e)"
proof (induction lines m d rule: scan_maps_close.induct)
  case (1 lines m d)
  show ?case
  proof (cases "m < length lines \<and> 0 < d")
    case False
    with "1.prems" show ?thesis by (simp add: scan_maps_close_stop)
  next
    case run: True
    show ?thesis
    proof (cases "d + str_count (lines ! m) LBRACE - str_count (lines ! m) RBRACE = 0")
      case True
      with run "1.prems" have "e = m" by (simp add: scan_maps_close_hit)
      moreover from True run str_count_nonneg [of "lines ! m" LBRACE]
      have "str_count (lines ! m) RBRACE \<noteq> 0" by arith
      then have "RBRACE \<in> set (lines ! m)"
        by (simp add: str_count_zero_iff)
      ultimately show ?thesis by simp
    next
      case False
      with run "1.prems" have "scan_maps_close lines (m + 1)
          (d + str_count (lines ! m) LBRACE - str_count (lines ! m) RBRACE) = Some e"
        by (simp add: scan_maps_close_step)
      from "1.IH" [OF run refl False this] show ?thesis .
    qed
  qed
qed

lemma scan_group_body_header:
  "scan_group_body lines g j d = Inr (ms, me, ind) \<Longrightarrow>
     \<exists>h. j \<le> h \<and> h < length lines \<and> startswith (strip (lines ! h)) ''\"maps\"''
        \<and> ms = scan_open_brace lines h + 1 \<and> scan_maps_close lines ms 1 = Some me"
proof (induction lines g j d rule: scan_group_body.induct)
  case (1 lines g j d)
  show ?case
  proof (cases "j < length lines \<and> 0 < d")
    case False
    with "1.prems" show ?thesis by (simp add: scan_group_body_stop)
  next
    case run: True
    show ?thesis
    proof (cases "startswith (strip (lines ! j)) ''\"maps\"''")
      case True
      let ?k = "scan_open_brace lines j"
      from run True "1.prems" have k: "?k < length lines"
        by (simp add: scan_group_body_hit split: if_splits)
      with run True "1.prems" obtain e where e: "scan_maps_close lines (?k + 1) 1 = Some e"
        and rest: "(case infer_maps_indent lines (?k + 1) e of
                     Inl err \<Rightarrow> Inl err
                   | Inr indent \<Rightarrow> Inr (?k + 1, e, indent)) = Inr (ms, me, ind)"
        by (simp add: scan_group_body_hit split: option.splits)
      from rest have "ms = ?k + 1" "me = e"
        by (simp_all split: sum.splits)
      with e run True show ?thesis by (intro exI [of _ j]) simp
    next
      case False
      with run "1.prems"
      have rec: "scan_group_body lines g (j + 1) (brace_step d (lines ! j)) = Inr (ms, me, ind)"
        by (simp add: scan_group_body_step)
      from "1.IH" [OF run refl False rec] obtain h where
        "j + 1 \<le> h \<and> h < length lines \<and> startswith (strip (lines ! h)) ''\"maps\"''
          \<and> ms = scan_open_brace lines h + 1 \<and> scan_maps_close lines ms 1 = Some me"
        by blast
      then show ?thesis by (intro exI [of _ h]) auto
    qed
  qed
qed

lemma locate_maps_header:
  assumes "find_group_and_maps_block lines g = Inr (gs, ms, me, ind)"
  shows "\<exists>h. gs < h \<and> h < length lines \<and> startswith (strip (lines ! h)) ''\"maps\"''
        \<and> ms = scan_open_brace lines h + 1 \<and> scan_maps_close lines ms 1 = Some me"
proof -
  from assms obtain i where
    body: "scan_group_body lines g (scan_open_brace lines gs + 1) 1 = Inr (ms, me, ind)"
    by (rule locate_unfold)
  from scan_group_body_header [OF body] obtain h where
    "scan_open_brace lines gs + 1 \<le> h \<and> h < length lines
      \<and> startswith (strip (lines ! h)) ''\"maps\"''
      \<and> ms = scan_open_brace lines h + 1 \<and> scan_maps_close lines ms 1 = Some me"
    by blast
  with scan_open_brace_ge [of gs lines] show ?thesis by (intro exI [of _ h]) auto
qed

section \<open>List insertion and the worked document\<close>

lemma list_insert_length: "length (list_insert xs i x) = Suc (length xs)"
  by (simp add: list_insert_def)

lemma list_insert_before: "k < i \<Longrightarrow> k < length xs \<Longrightarrow> list_insert xs i x ! k = xs ! k"
  by (simp add: list_insert_def nth_append)

lemma list_insert_at: "i \<le> length xs \<Longrightarrow> list_insert xs i x ! i = x"
  by (simp add: list_insert_def nth_append)

lemma list_insert_after:
  "i \<le> k \<Longrightarrow> k < length xs \<Longrightarrow> list_insert xs i x ! (Suc k) = xs ! k"
  by (simp add: list_insert_def nth_append min_def Suc_diff_le)

lemma list_insert_remove:
  "i \<le> length xs \<Longrightarrow> take i (list_insert xs i x) @ drop (Suc i) (list_insert xs i x) = xs"
  by (simp add: list_insert_def)

lemma example_doc_located:
  "find_group_and_maps_block example_doc ''mg_active'' = Inr (4, 9, 11, [TAB, TAB, TAB, TAB])"
  by code_simp

lemma example_doc_keys:
  "current_maps_in_block example_doc 9 11 = Inr [''de_inferno'', ''workshop/12345/de_dust2'']"
  by code_simp

lemma splitlines_Nil [simp]: "splitlines k [] = []"
  by (simp add: splitlines_def)

lemma locate_empty: "find_group_and_maps_block [] g = Inl SectionNotFound"
  by (simp add: find_group_and_maps_block_def scan_mapgroups_stop)

lemma example_doc_read: "splitlines True (universal_newlines (concat example_doc)) = example_doc"
  by code_simp

lemma example_world_primary:
  "files example_world ''game/csgo/gamemodes_server.txt'' = Some (concat example_doc)"
  by (simp add: example_world_def)

section \<open>Line splitting and newline translation\<close>

lemma CR_linebreak [simp]: "is_linebreak CR"
  by (simp add: is_linebreak_def)

lemma LF_linebreak [simp]: "is_linebreak LF"
  by (simp add: is_linebreak_def)

lemma linebreak_is_space: "is_linebreak c \<Longrightarrow> is_space c"
  by (auto simp: is_linebreak_def is_space_def)

lemma universal_newlines_no_CR: "CR \<notin> set (universal_newlines s)"
  by (induction s rule: universal_newlines.induct) auto

lemma universal_newlines_id: "CR \<notin> set s \<Longrightarrow> universal_newlines s = s"
  by (induction s rule: universal_newlines.induct) auto

lemma universal_newlines_append:
  "a = [] \<or> last a \<noteq> CR \<or> b = [] \<or> hd b \<noteq> LF \<Longrightarrow>
     universal_newlines (a @ b) = universal_newlines a @ universal_newlines b"
proof (induction a rule: universal_newlines.induct)
  case 1
  show ?case by simp
next
  case (2 c)
  then show ?case by (cases b) auto
next
  case (3 c d cs)
  show ?case
  proof (cases "cs = []")
    case True
    with 3 show ?thesis by (cases b) auto
  next
    case False
    with 3 show ?thesis by auto
  qed
qed

lemma universal_newlines_ends:
  "s \<noteq> [] \<Longrightarrow> is_linebreak (last s) \<Longrightarrow>
     universal_newlines s \<noteq> [] \<and> is_linebreak (last (universal_newlines s))"
  by (induction s rule: universal_newlines.induct) (auto split: if_splits)

lemma splitlines_acc_Cons:
  "c \<noteq> CR \<Longrightarrow>
     splitlines_acc k acc (c # xs) =
       (if is_linebreak c then (acc @ (if k then [c] else [])) # splitlines_acc k [] xs
        else splitlines_acc k (acc @ [c]) xs)"
  by (cases xs) auto

lemma splitlines_acc_append:
  "CR \<notin> set a \<Longrightarrow> a \<noteq> [] \<Longrightarrow> is_linebreak (last a) \<Longrightarrow>
     splitlines_acc k acc (a @ b) = splitlines_acc k acc a @ splitlines_acc k [] b"
proof (induction a arbitrary: acc)
  case Nil
  then show ?case by simp
next
  case (Cons c a)
  then have c: "c \<noteq> CR" by auto
  show ?case
  proof (cases "a = []")
    case True
    with Cons.prems c show ?thesis
      by (simp add: splitlines_acc_Cons del: splitlines_acc.simps(2,3))
  next
    case False
    with Cons.prems have "\<And>acc'. splitlines_acc k acc' (a @ b)
        = splitlines_acc k acc' a @ splitlines_acc k [] b"
      by (intro Cons.IH) auto
    with c show ?thesis
      by (simp add: splitlines_acc_Cons del: splitlines_acc.simps(2,3))
  qed
qed

lemma splitlines_append:
  "CR \<notin> set a \<Longrightarrow> ends_with_newline a \<Longrightarrow>
     splitlines k (a @ b) = splitlines k a @ splitlines k b"
  by (cases "a = []") (auto simp: splitlines_def ends_with_newline_def splitlines_acc_append)

lemma splitlines_acc_one_line:
  "\<forall>c \<in> set body. \<not> is_linebreak c \<Longrightarrow> t \<noteq> CR \<Longrightarrow> is_linebreak t \<Longrightarrow>
     splitlines_acc k acc (body @ [t]) = [acc @ body @ (if k then [t] else [])]"
proof (induction body arbitrary: acc)
  case Nil
  then show ?case by simp
next
  case (Cons c body)
  then have "c \<noteq> CR" by auto
  with Cons show ?case
    by (simp add: splitlines_acc_Cons del: splitlines_acc.simps(2,3))
qed

lemma existing_ids_append:
  "CR \<notin> set a \<Longrightarrow> ends_with_newline a \<Longrightarrow>
     existing_ids (a @ b) = existing_ids a @ existing_ids b"
  by (simp add: existing_ids_def splitlines_append)

lemma existing_ids_token:
  "token_clean t \<Longrightarrow> existing_ids (t @ [LF]) = [t]"
  using splitlines_acc_one_line [of t LF False "[]"]
  by (simp add: existing_ids_def splitlines_def token_clean_def)

lemma existing_ids_after_append:
  assumes "token_clean t" and "ends_with_newline raw"
  shows "t \<in> set (existing_ids (universal_newlines (raw @ t @ [LF])))"
proof -
  from assms(1) have t: "t \<noteq> []" "CR \<notin> set t"
    by (auto simp: token_clean_def)
  from assms(1) have "\<not> is_linebreak (hd t)"
    by (cases t) (auto simp: token_clean_def)
  then have "hd t \<noteq> LF" by auto
  note t = t this
  then have "universal_newlines (raw @ t @ [LF]) = universal_newlines raw @ universal_newlines (t @ [LF])"
    by (intro universal_newlines_append) simp
  also from t have "universal_newlines (t @ [LF]) = t @ [LF]"
    by (intro universal_newlines_id) simp
  finally have u: "universal_newlines (raw @ t @ [LF]) = universal_newlines raw @ t @ [LF]" .
  have "ends_with_newline (universal_newlines raw)"
  proof (cases "raw = []")
    case True
    then show ?thesis by (simp add: ends_with_newline_def)
  next
    case False
    with assms(2) have "is_linebreak (last raw)" by (simp add: ends_with_newline_def)
    from universal_newlines_ends [OF False this] show ?thesis
      by (simp add: ends_with_newline_def)
  qed
  with u existing_ids_append [OF universal_newlines_no_CR, of raw "t @ [LF]"]
    existing_ids_token [OF assms(1)]
  show ?thesis by simp
qed

section \<open>Reading back what was written\<close>

lemma splitlines_acc_Nil: "splitlines_acc k acc [] = (if acc = [] then [] else [acc])"
  by simp

lemma concat_splitlines_acc:
  "CR \<notin> set s \<Longrightarrow> concat (splitlines_acc True acc s) = acc @ s"
proof (induction s arbitrary: acc)
  case Nil
  then show ?case by simp
next
  case (Cons c s)
  then have "c \<noteq> CR" by auto
  with Cons show ?case
    by (simp add: splitlines_acc_Cons del: splitlines_acc.simps(2,3))
qed

lemma concat_splitlines: "CR \<notin> set s \<Longrightarrow> concat (splitlines True s) = s"
  by (simp add: splitlines_def concat_splitlines_acc)

lemma doc_shaped_Nil [simp]: "doc_shaped []"
  by (simp add: doc_shaped_def)

lemma doc_shaped_Cons:
  "doc_shaped (l # ls) \<longleftrightarrow>
     line_shaped l \<and> (ls \<noteq> [] \<longrightarrow> is_linebreak (last l)) \<and> doc_shaped ls"
  by (auto simp: doc_shaped_def)

lemma doc_shaped_splitlines_acc:
  "CR \<notin> set s \<Longrightarrow> CR \<notin> set acc \<Longrightarrow> \<forall>c \<in> set acc. \<not> is_linebreak c \<Longrightarrow>
     doc_shaped (splitlines_acc True acc s)"
proof (induction s arbitrary: acc)
  case Nil
  then have "\<forall>c \<in> set (butlast acc). \<not> is_linebreak c"
    by (auto dest: in_set_butlastD)
  with Nil show ?case by (simp add: doc_shaped_Cons line_shaped_def)
next
  case (Cons c s)
  then have c: "c \<noteq> CR" by auto
  show ?case
  proof (cases "is_linebreak c")
    case True
    from Cons.prems have "doc_shaped (splitlines_acc True [] s)"
      by (intro Cons.IH) simp_all
    with True c Cons.prems show ?thesis
      by (simp add: splitlines_acc_Cons doc_shaped_Cons line_shaped_def
            del: splitlines_acc.simps(2,3))
  next
    case False
    with Cons.prems have "doc_shaped (splitlines_acc True (acc @ [c]) s)"
      by (intro Cons.IH) auto
    with False c show ?thesis
      by (simp add: splitlines_acc_Cons del: splitlines_acc.simps(2,3))
  qed
qed

lemma doc_shaped_splitlines: "CR \<notin> set s \<Longrightarrow> doc_shaped (splitlines True s)"
  by (simp add: splitlines_def doc_shaped_splitlines_acc)

lemma splitlines_acc_no_break:
  "\<forall>c \<in> set s. \<not> is_linebreak c \<Longrightarrow> splitlines_acc k acc s = (if acc @ s = [] then [] else [acc @ s])"
proof (induction s arbitrary: acc)
  case Nil
  then show ?case by simp
next
  case (Cons c s)
  then have "c \<noteq> CR" by auto
  with Cons show ?case
    by (simp add: splitlines_acc_Cons del: splitlines_acc.simps(2,3))
qed

lemma splitlines_line_shaped: "line_shaped l \<Longrightarrow> splitlines True l = [l]"
proof -
  assume a: "line_shaped l"
  then have ne: "l \<noteq> []" by (simp add: line_shaped_def)
  then have l: "l = butlast l @ [last l]" by simp
  from a have "CR \<notin> set l" by (simp add: line_shaped_def)
  with last_in_set [OF ne] have cr: "last l \<noteq> CR" by metis
  from a have body: "\<forall>c \<in> set (butlast l). \<not> is_linebreak c" by (simp add: line_shaped_def)
  show ?thesis
  proof (cases "is_linebreak (last l)")
    case True
    from splitlines_acc_one_line [OF body cr True, of True "[]"] l show ?thesis
      by (simp add: splitlines_def)
  next
    case False
    with body have "\<forall>c \<in> set (butlast l @ [last l]). \<not> is_linebreak c" by simp
    with l have "\<forall>c \<in> set l. \<not> is_linebreak c" by simp
    from splitlines_acc_no_break [OF this, of True "[]"] ne show ?thesis
      by (simp add: splitlines_def)
  qed
qed

lemma doc_shaped_no_CR: "doc_shaped ls \<Longrightarrow> CR \<notin> set (concat ls)"
  by (auto simp: doc_shaped_def line_shaped_def)

lemma doc_shaped_concat_ends:
  "doc_shaped ls \<Longrightarrow> \<forall>l \<in> set ls. is_linebreak (last l) \<Longrightarrow> ends_with_newline (concat ls)"
proof (induction ls rule: rev_induct)
  case Nil
  show ?case by (simp add: ends_with_newline_def)
next
  case (snoc l ls)
  then have "l \<noteq> []" by (simp add: doc_shaped_def line_shaped_def)
  with snoc.prems show ?case by (simp add: ends_with_newline_def)
qed

lemma splitlines_concat: "doc_shaped ls \<Longrightarrow> splitlines True (concat ls) = ls"
proof (induction ls)
  case Nil
  show ?case by simp
next
  case (Cons l ls)
  then have l: "line_shaped l" and rest: "doc_shaped ls" by (simp_all add: doc_shaped_Cons)
  show ?case
  proof (cases "ls = []")
    case True
    with l show ?thesis by (simp add: splitlines_line_shaped)
  next
    case False
    with Cons.prems have "is_linebreak (last l)" by (simp add: doc_shaped_Cons)
    with l have "CR \<notin> set l" "ends_with_newline l"
      by (simp_all add: line_shaped_def ends_with_newline_def)
    from splitlines_append [OF this, of True "concat ls"] l Cons.IH [OF rest]
    show ?thesis by (simp add: splitlines_line_shaped)
  qed
qed

lemma doc_shaped_take: "doc_shaped ls \<Longrightarrow> doc_shaped (take n ls)"
proof (induction ls arbitrary: n)
  case Nil
  show ?case by simp
next
  case (Cons l ls)
  show ?case
  proof (cases n)
    case 0
    then show ?thesis by simp
  next
    case (Suc m)
    from Cons.prems have "doc_shaped (take m ls)"
      by (intro Cons.IH) (simp add: doc_shaped_Cons)
    moreover have "take m ls \<noteq> [] \<Longrightarrow> ls \<noteq> []" by auto
    ultimately show ?thesis using Cons.prems Suc by (auto simp: doc_shaped_Cons)
  qed
qed

lemma doc_shaped_drop: "doc_shaped ls \<Longrightarrow> doc_shaped (drop n ls)"
proof (induction ls arbitrary: n)
  case Nil
  show ?case by simp
next
  case (Cons l ls)
  then show ?case by (cases n) (simp_all add: doc_shaped_Cons)
qed

lemma doc_shaped_take_terminated:
  "doc_shaped ls \<Longrightarrow> n < length ls \<Longrightarrow> \<forall>l \<in> set (take n ls). is_linebreak (last l)"
proof -
  assume a: "doc_shaped ls" "n < length ls"
  then have "take n ls = take n (butlast ls)" by (simp add: take_butlast)
  then have "set (take n ls) \<subseteq> set (butlast ls)" by (metis set_take_subset)
  with a show ?thesis by (auto simp: doc_shaped_def)
qed

section \<open>The new entry line, written and read back\<close>

lemma readback_insert:
  assumes "doc_shaped lines" and "idx < length lines" and "CR \<notin> set nl"
    and "nl \<noteq> []" and "is_linebreak (last nl)"
  shows "splitlines True (universal_newlines (concat (list_insert lines idx nl)))
           = take idx lines @ splitlines True nl @ drop idx lines"
proof -
  let ?a = "concat (take idx lines)" and ?b = "concat (drop idx lines)"
  have c: "concat (list_insert lines idx nl) = ?a @ nl @ ?b"
    by (simp add: list_insert_def)
  from assms(1) have sa: "doc_shaped (take idx lines)" and sb: "doc_shaped (drop idx lines)"
    by (simp_all add: doc_shaped_take doc_shaped_drop)
  from sa have cra: "CR \<notin> set ?a" by (rule doc_shaped_no_CR)
  from sb have crb: "CR \<notin> set ?b" by (rule doc_shaped_no_CR)
  from cra crb assms(3) have "CR \<notin> set (?a @ nl @ ?b)" by simp
  then have u: "universal_newlines (?a @ nl @ ?b) = ?a @ nl @ ?b"
    by (rule universal_newlines_id)
  from doc_shaped_concat_ends [OF sa doc_shaped_take_terminated [OF assms(1) assms(2)]]
  have ea: "ends_with_newline ?a" .
  from assms(4,5) have en: "ends_with_newline nl" by (simp add: ends_with_newline_def)
  have "splitlines True (?a @ nl @ ?b) = splitlines True ?a @ splitlines True (nl @ ?b)"
    by (rule splitlines_append [OF cra ea])
  also have "splitlines True (nl @ ?b) = splitlines True nl @ splitlines True ?b"
    by (rule splitlines_append [OF assms(3) en])
  finally show ?thesis using c u sa sb by (simp add: splitlines_concat)
qed

lemma splitlines_acc_ws_prefix:
  "\<forall>c \<in> set ws. is_space c \<and> c \<noteq> CR \<Longrightarrow> \<forall>c \<in> set acc. is_space c \<Longrightarrow>
   \<forall>c \<in> set body. \<not> is_linebreak c \<Longrightarrow>
     \<exists>pre sp. splitlines_acc True acc (ws @ body @ [LF]) = pre @ [sp @ body @ [LF]]
        \<and> (\<forall>c \<in> set sp. is_space c)"
proof (induction ws arbitrary: acc)
  case Nil
  from splitlines_acc_one_line [OF Nil(3), of LF True acc] Nil(2)
  show ?case by (intro exI [of _ "[]"] exI [of _ acc]) simp
next
  case (Cons c ws)
  then have c: "c \<noteq> CR" "is_space c" by auto
  show ?case
  proof (cases "is_linebreak c")
    case True
    from Cons.prems have "\<exists>pre sp. splitlines_acc True [] (ws @ body @ [LF]) = pre @ [sp @ body @ [LF]]
        \<and> (\<forall>c \<in> set sp. is_space c)"
      by (intro Cons.IH) simp_all
    then obtain pre sp where "splitlines_acc True [] (ws @ body @ [LF]) = pre @ [sp @ body @ [LF]]"
      and "\<forall>c \<in> set sp. is_space c" by blast
    with True c show ?thesis
      by (intro exI [of _ "(acc @ [c]) # pre"] exI [of _ sp])
         (simp add: splitlines_acc_Cons del: splitlines_acc.simps(2,3))
  next
    case False
    from Cons.prems c
    have "\<exists>pre sp. splitlines_acc True (acc @ [c]) (ws @ body @ [LF]) = pre @ [sp @ body @ [LF]]
        \<and> (\<forall>c \<in> set sp. is_space c)"
      by (intro Cons.IH) auto
    with False c show ?thesis
      by (simp add: splitlines_acc_Cons del: splitlines_acc.simps(2,3))
  qed
qed

lemma DQ_not_space [simp]: "\<not> is_space DQ"
  by (simp add: is_space_def)

lemma TAB_space [simp]: "is_space TAB"
  by (simp add: is_space_def)

lemma LF_space [simp]: "is_space LF"
  by (simp add: is_space_def)

lemma strip_entry_line:
  "\<forall>c \<in> set sp. is_space c \<Longrightarrow>
     strip (sp @ [DQ] @ key @ [DQ, TAB, TAB, DQ, DQ, LF]) = [DQ] @ key @ [DQ, TAB, TAB, DQ, DQ]"
proof -
  assume sp: "\<forall>c \<in> set sp. is_space c"
  then have "lstrip (sp @ [DQ] @ key @ [DQ, TAB, TAB, DQ, DQ, LF])
               = [DQ] @ key @ [DQ, TAB, TAB, DQ, DQ, LF]"
    by (simp add: lstrip_def dropWhile_append3)
  moreover have "rstrip ([DQ] @ key @ [DQ, TAB, TAB, DQ, DQ, LF]) = [DQ] @ key @ [DQ, TAB, TAB, DQ, DQ]"
    by (simp add: rstrip_def)
  ultimately show ?thesis by (simp add: strip_def)
qed

lemma split_acc_until:
  "sep \<notin> set k \<Longrightarrow> split_acc sep acc (k @ sep # rest) = (acc @ k) # split_acc sep [] rest"
  by (induction k arbitrary: acc) auto

lemma split_entry_key:
  "DQ \<notin> set key \<Longrightarrow> split_on ([DQ] @ key @ [DQ, TAB, TAB, DQ, DQ]) DQ ! 1 = key"
  using split_acc_until [of DQ key "[]" "[TAB, TAB, DQ, DQ]"]
  by (simp add: split_on_def)

lemma entry_keys_member:
  assumes "l \<in> set ls" and "strip l = [DQ] @ key @ [DQ, TAB, TAB, DQ, DQ]" and "DQ \<notin> set key"
  shows "key \<in> set (entry_keys ls)"
proof -
  let ?P = "\<lambda>l. startswith (strip l) [DQ] \<and> DQ \<in> set (strip l)"
  let ?f = "\<lambda>l. split_on (strip l) DQ ! 1"
  from assms(2) have "?P l" by (simp add: startswith_def)
  with assms(1) have "l \<in> set (filter ?P ls)" by simp
  then have "?f l \<in> ?f ` set (filter ?P ls)" by (rule imageI)
  then have "?f l \<in> set (map ?f (filter ?P ls))" by (simp only: set_map)
  moreover have "?f l = key"
    unfolding assms(2) by (rule split_entry_key [OF assms(3)])
  ultimately show ?thesis by (simp only: entry_keys_def)
qed

lemma DQ_TAB_not_linebreak [simp]: "\<not> is_linebreak DQ" "\<not> is_linebreak TAB"
  by (simp_all add: is_linebreak_def)

lemma space_not_brace: "is_space c \<Longrightarrow> c \<noteq> LBRACE \<and> c \<noteq> RBRACE"
  by (auto simp: is_space_def)


lemma new_entry_line_pieces:
  assumes "\<forall>c \<in> set indent. is_space c \<and> c \<noteq> CR" and "key_plain key"
  shows "\<exists>pre q. splitlines True (new_entry_line indent key) = pre @ [q]
           \<and> strip q = [DQ] @ key @ [DQ, TAB, TAB, DQ, DQ]
           \<and> (\<forall>p \<in> set (pre @ [q]). LBRACE \<notin> set p \<and> RBRACE \<notin> set p)"
proof -
  let ?body = "[DQ] @ key @ [DQ, TAB, TAB, DQ, DQ]"
  let ?nl = "new_entry_line indent key"
  from assms(2) have body: "\<forall>c \<in> set ?body. \<not> is_linebreak c"
    by (simp add: key_plain_def)
  have acc: "\<forall>c \<in> set ([]::string). is_space c" by simp
  from splitlines_acc_ws_prefix [OF assms(1) acc body]
  obtain pre sp where sl: "splitlines_acc True [] (indent @ ?body @ [LF]) = pre @ [sp @ ?body @ [LF]]"
    and sp: "\<forall>c \<in> set sp. is_space c" by blast
  have nl: "?nl = indent @ ?body @ [LF]"
    by (simp add: new_entry_line_def)
  have "CR \<notin> set key"
  proof
    assume "CR \<in> set key"
    with assms(2) have "\<not> is_linebreak CR" unfolding key_plain_def by blast
    then show False by simp
  qed
  moreover from assms(1) have "CR \<notin> set indent" by blast
  ultimately have cr: "CR \<notin> set ?nl"
    by (simp add: new_entry_line_def)
  from assms(1) have "LBRACE \<notin> set indent \<and> RBRACE \<notin> set indent"
    using space_not_brace by blast
  moreover from assms(2) have "LBRACE \<notin> set key \<and> RBRACE \<notin> set key"
    unfolding key_plain_def by blast
  ultimately
  have nb: "LBRACE \<notin> set ?nl \<and> RBRACE \<notin> set ?nl"
    by (simp add: new_entry_line_def)
  have braces: "LBRACE \<notin> set p \<and> RBRACE \<notin> set p" if "p \<in> set (splitlines True ?nl)" for p
  proof -
    from that have "set p \<subseteq> set (concat (splitlines True ?nl))" by auto
    with concat_splitlines [OF cr] nb show ?thesis by auto
  qed
  from sl have eq: "splitlines True ?nl = pre @ [sp @ ?body @ [LF]]"
    unfolding nl splitlines_def .
  from strip_entry_line [OF sp, of key]
  have st: "strip (sp @ ?body @ [LF]) = ?body" by simp
  from braces have "\<forall>p \<in> set (pre @ [sp @ ?body @ [LF]]). LBRACE \<notin> set p \<and> RBRACE \<notin> set p"
    unfolding eq by blast
  with eq st show ?thesis by blast
qed

section \<open>The three ways the operation succeeds\<close>

lemma read_lines_Some:
  "files w p = Some raw \<Longrightarrow>
     read_lines w p = Inr (emit (ReadText p) w, splitlines True (universal_newlines raw))"
  by (simp add: read_lines_def)

lemma files_emit [simp]: "files (emit e w) = files w"
  by (simp add: emit_def)

lemma trace_emit [simp]: "trace (emit e w) = trace w @ [e]"
  by (simp add: emit_def)

lemma backup_file_Some:
  "files w p = Some raw \<Longrightarrow>
     backup_file w p =
       Inr (emit (Copy p (backup_path p)) (w\<lparr>files := (files w)(backup_path p \<mapsto> raw)\<rparr>),
            backup_path p)"
  by (simp add: backup_file_def Let_def)

lemma add_map_to_group_missing:
  "files w gm = None \<Longrightarrow> add_map_to_group w gm sub g name wid dry pos = Inl (MissingFile gm)"
  by (simp add: add_map_to_group_def read_lines_def)

lemma add_map_to_group_locate_error:
  "files w gm = Some raw \<Longrightarrow>
   find_group_and_maps_block (splitlines True (universal_newlines raw)) g = Inl e \<Longrightarrow>
     add_map_to_group w gm sub g name wid dry pos = Inl e"
  by (simp add: add_map_to_group_def read_lines_Some)

lemma add_map_to_group_keys_error:
  "files w gm = Some raw \<Longrightarrow>
   find_group_and_maps_block (splitlines True (universal_newlines raw)) g = Inr (gs, ms, me, ind) \<Longrightarrow>
   current_maps_in_block (splitlines True (universal_newlines raw)) ms me = Inl e \<Longrightarrow>
     add_map_to_group w gm sub g name wid dry pos = Inl e"
  by (simp add: add_map_to_group_def read_lines_Some)

lemma add_map_to_group_skip:
  "files w gm = Some raw \<Longrightarrow>
   find_group_and_maps_block (splitlines True (universal_newlines raw)) g = Inr (gs, ms, me, ind) \<Longrightarrow>
   current_maps_in_block (splitlines True (universal_newlines raw)) ms me = Inr keys \<Longrightarrow>
   format_map_key name wid \<in> set keys \<Longrightarrow>
     add_map_to_group w gm sub g name wid dry pos =
       Inr (subscribe_if_given
              (emit (Print (MsgSkipMap g (format_map_key name wid))) (emit (ReadText gm) w))
              sub wid dry)"
  by (simp add: add_map_to_group_def read_lines_Some)

lemma add_map_to_group_insert_dry:
  "files w gm = Some raw \<Longrightarrow>
   find_group_and_maps_block (splitlines True (universal_newlines raw)) g = Inr (gs, ms, me, ind) \<Longrightarrow>
   current_maps_in_block (splitlines True (universal_newlines raw)) ms me = Inr keys \<Longrightarrow>
   format_map_key name wid \<notin> set keys \<Longrightarrow>
     add_map_to_group w gm sub g name wid True pos =
       Inr (subscribe_if_given
              (emit (Print (MsgAddedMap g (format_map_key name wid) True)) (emit (ReadText gm) w))
              sub wid True)"
  by (simp add: add_map_to_group_def read_lines_Some)

lemma add_map_to_group_insert_written:
  "files w gm = Some raw \<Longrightarrow>
   find_group_and_maps_block (splitlines True (universal_newlines raw)) g = Inr (gs, ms, me, ind) \<Longrightarrow>
   current_maps_in_block (splitlines True (universal_newlines raw)) ms me = Inr keys \<Longrightarrow>
   format_map_key name wid \<notin> set keys \<Longrightarrow>
     add_map_to_group w gm sub g name wid False pos =
       Inr (subscribe_if_given
              (emit (Print (MsgAddedMap g (format_map_key name wid) False))
                 (write_lines
                    (emit (Print (MsgBackup (backup_path gm)))
                       (emit (Copy gm (backup_path gm))
                          ((emit (ReadText gm) w)\<lparr>files := (files w)(backup_path gm \<mapsto> raw)\<rparr>)))
                    gm
                    (insert_map (splitlines True (universal_newlines raw)) ms me ind
                       (format_map_key name wid) pos)))
              sub wid False)"
  by (simp add: add_map_to_group_def read_lines_Some backup_file_Some Let_def)

lemma add_map_to_group_success_cases:
  assumes "add_map_to_group w gm sub g name wid dry pos = Inr w'"
  obtains (skip) raw gs ms me ind keys where
      "files w gm = Some raw"
      "find_group_and_maps_block (splitlines True (universal_newlines raw)) g = Inr (gs, ms, me, ind)"
      "current_maps_in_block (splitlines True (universal_newlines raw)) ms me = Inr keys"
      "format_map_key name wid \<in> set keys"
  | (insert) raw gs ms me ind keys where
      "files w gm = Some raw"
      "find_group_and_maps_block (splitlines True (universal_newlines raw)) g = Inr (gs, ms, me, ind)"
      "current_maps_in_block (splitlines True (universal_newlines raw)) ms me = Inr keys"
      "format_map_key name wid \<notin> set keys"
proof -
  from assms obtain raw where t: "files w gm = Some raw"
    by (cases "files w gm") (simp_all add: add_map_to_group_missing)
  let ?lines = "splitlines True (universal_newlines raw)"
  from assms t obtain gs ms me ind where l: "find_group_and_maps_block ?lines g = Inr (gs, ms, me, ind)"
    by (cases "find_group_and_maps_block ?lines g") (auto simp: add_map_to_group_locate_error)
  from assms t l obtain keys where k: "current_maps_in_block ?lines ms me = Inr keys"
    by (cases "current_maps_in_block ?lines ms me") (auto simp: add_map_to_group_keys_error)
  show thesis
  proof (cases "format_map_key name wid \<in> set keys")
    case True
    with t l k show thesis by (rule skip)
  next
    case False
    with t l k show thesis by (rule insert)
  qed
qed

section \<open>The indentation loop\<close>

lemma leading_whitespace_take:
  "take (length line - length (lstrip line)) line = leading_whitespace line"
proof -
  have "length (takeWhile is_space line) + length (dropWhile is_space line) = length line"
    by (metis length_append takeWhile_dropWhile_id)
  then have "length line - length (dropWhile is_space line) = length (takeWhile is_space line)"
    by arith
  moreover have "take (length (takeWhile is_space line)) line = takeWhile is_space line"
    using takeWhile_eq_take [of is_space line] by simp
  ultimately show ?thesis by (simp add: lstrip_def leading_whitespace_def)
qed

lemma infer_maps_indent_stop:
  "\<not> s < e \<Longrightarrow> infer_maps_indent lines s e = Inr (replicate 4 TAB)"
  by (subst infer_maps_indent.simps) simp

lemma infer_maps_indent_hit:
  "s < e \<Longrightarrow> s < length lines \<Longrightarrow> indent_donor (lines ! s) \<Longrightarrow>
     infer_maps_indent lines s e = Inr (leading_whitespace (lines ! s))"
  by (subst infer_maps_indent.simps)
     (auto simp: Let_def indent_donor_def quoted_entry_def leading_whitespace_take)

lemma infer_maps_indent_step:
  "s < e \<Longrightarrow> s < length lines \<Longrightarrow> \<not> indent_donor (lines ! s) \<Longrightarrow>
     infer_maps_indent lines s e = infer_maps_indent lines (s + 1) e"
  by (subst infer_maps_indent.simps)
     (auto simp: Let_def indent_donor_def quoted_entry_def)

lemma block_lines_Nil: "\<not> s < e \<Longrightarrow> block_lines lines s e = []"
  by (simp add: block_lines_def)

lemma block_lines_Cons:
  "s < e \<Longrightarrow> s < length lines \<Longrightarrow>
     block_lines lines s e = lines ! s # block_lines lines (s + 1) e"
proof -
  assume a: "s < e" "s < length lines"
  then have "drop s lines = lines ! s # drop (Suc s) lines"
    by (simp add: Cons_nth_drop_Suc)
  moreover from a have "e - s = Suc (e - Suc s)" by simp
  ultimately show ?thesis by (simp add: block_lines_def)
qed

lemma infer_maps_indent_find:
  "e \<le> length lines \<Longrightarrow>
     infer_maps_indent lines s e =
       Inr (case find indent_donor (block_lines lines s e) of
              None \<Rightarrow> replicate 4 TAB
            | Some line \<Rightarrow> leading_whitespace line)"
proof (induction lines s e rule: infer_maps_indent.induct)
  case (1 lines s e)
  show ?case
  proof (cases "s < e")
    case False
    then show ?thesis by (simp add: infer_maps_indent_stop block_lines_Nil)
  next
    case True
    with "1.prems" have in_range: "s < length lines" by simp
    show ?thesis
    proof (cases "indent_donor (lines ! s)")
      case donor: True
      with True in_range show ?thesis
        by (simp add: infer_maps_indent_hit block_lines_Cons)
    next
      case no_donor: False
      have "infer_maps_indent lines (s + 1) e =
              Inr (case find indent_donor (block_lines lines (s + 1) e) of
                     None \<Rightarrow> replicate 4 TAB
                   | Some line \<Rightarrow> leading_whitespace line)"
      proof (rule "1.IH" [OF True in_range refl refl _ _ "1.prems"])
        from no_donor show "\<not> ((startswith (strip (lines ! s)) [DQ] \<and> DQ \<in> set (strip (lines ! s))
                      \<and> TAB \<in> set (lines ! s)) \<or> TAB \<in> set (lines ! s))"
          by (auto simp: indent_donor_def)
        from no_donor show "\<not> (startswith (strip (lines ! s)) [DQ] \<and> TAB \<notin> set (lines ! s))"
          by (auto simp: indent_donor_def quoted_entry_def)
      qed
      with True in_range no_donor show ?thesis
        by (simp add: infer_maps_indent_step block_lines_Cons)
    qed
  qed
qed

section \<open>The walk for the group header\<close>




lemma scan_group_no_header:
  assumes "find (\<lambda>k. group_header g (lines ! k)) [i..<length lines] = None"
  shows "scan_group lines g i d = None"
  using assms
proof (induction lines g i d rule: scan_group.induct)
  case (1 lines g i d)
  show ?case
  proof (cases "i < length lines \<and> 0 < d")
    case False
    then show ?thesis by (simp add: scan_group_stop)
  next
    case True
    then have upt: "[i..<length lines] = i # [i + 1..<length lines]"
      by (simp add: upt_conv_Cons)
    with "1.prems" have no_header: "\<not> group_header g (lines ! i)"
      and rest: "find (\<lambda>k. group_header g (lines ! k)) [i + 1..<length lines] = None"
      by (simp_all split: if_splits)
    from "1.IH" [OF True refl refl _ rest] no_header
    have "scan_group lines g (i + 1) (brace_step d (lines ! i)) = None"
      by (simp add: group_header_def)
    with True no_header show ?thesis by (simp add: scan_group_step group_header_def)
  qed
qed

section \<open>The list appender in closed form\<close>

lemma existing_ids_Nil [simp]: "existing_ids [] = []"
  by (simp add: existing_ids_def)

lemma files_probed [simp]: "files (probed w p) = files w"
  by (simp add: probed_def split: option.splits)

lemma file_text_probed [simp]: "file_text (probed w p) q = file_text w q"
  by (simp add: file_text_def)

lemma add_workshop_id_eq:
  "add_workshop_id w p t dry =
     (if t \<in> set (existing_ids (universal_newlines (file_text w p))) then (probed w p, False)
      else if dry then (probed w p, True)
      else (emit (Append p)
              ((emit (Mkdir p) (probed w p))\<lparr>files := (files w)(p \<mapsto> file_text w p @ t @ [LF])\<rparr>),
            True))"
  by (cases "files w p")
     (simp_all add: add_workshop_id_def Let_def file_text_def probed_def emit_def)

lemma appends_probed: "appends (trace (probed w p)) = appends (trace w)"
  by (simp add: probed_def appends_def split: option.splits)

section \<open>What a run reports and writes\<close>

lemma outcomes_simps [simp]:
  "outcomes [] = []"
  "outcomes (es @ fs) = outcomes es @ outcomes fs"
  "outcomes (Exists p # es) = outcomes es"
  "outcomes (ReadText p # es) = outcomes es"
  "outcomes (Copy p q # es) = outcomes es"
  "outcomes (WriteText p # es) = outcomes es"
  "outcomes (Mkdir p # es) = outcomes es"
  "outcomes (Append p # es) = outcomes es"
  "outcomes (Print (MsgSkipMap g k) # es) = MapPresent # outcomes es"
  "outcomes (Print (MsgAddedMap g k d) # es) = MapInserted # outcomes es"
  "outcomes (Print (MsgBackup p) # es) = outcomes es"
  "outcomes (Print (MsgSubscribed t d) # es) = IdAdded # outcomes es"
  "outcomes (Print (MsgSkipId t) # es) = IdPresent # outcomes es"
  by (simp_all add: outcomes_def outcome_of_def)

lemma written_paths_simps [simp]:
  "written_paths [] = []"
  "written_paths (es @ fs) = written_paths es @ written_paths fs"
  "written_paths (Exists p # es) = written_paths es"
  "written_paths (ReadText p # es) = written_paths es"
  "written_paths (Print m # es) = written_paths es"
  by (simp_all add: written_paths_def)

lemma new_events_append [simp]: "trace w' = trace w @ es \<Longrightarrow> new_events w w' = es"
  by (simp add: new_events_def)

lemma probed_trace:
  "\<exists>es. trace (probed v p) = trace v @ es \<and> outcomes es = [] \<and> written_paths es = []"
  by (cases "files v p") (simp_all add: probed_def)

lemma subscribe_if_given_trace:
  "\<exists>es. trace (subscribe_if_given v sub wid dry) = trace v @ es
        \<and> outcomes es = id_outcome (file_text v sub) wid
        \<and> (dry \<longrightarrow> written_paths es = [] \<and> files (subscribe_if_given v sub wid dry) = files v)"
proof (cases wid)
  case None
  then show ?thesis by (simp add: subscribe_if_given_def id_outcome_def)
next
  case (Some t)
  from probed_trace [of v sub] obtain ps where
    ps: "trace (probed v sub) = trace v @ ps" "outcomes ps = []" "written_paths ps = []"
    by blast
  show ?thesis
  proof (cases "t = []")
    case True
    with Some show ?thesis by (simp add: subscribe_if_given_def id_outcome_def)
  next
    case t: False
    show ?thesis
    proof (cases "t \<in> set (existing_ids (universal_newlines (file_text v sub)))")
      case True
      with Some t ps show ?thesis
        by (simp add: subscribe_if_given_def id_outcome_def add_workshop_id_eq)
    next
      case False
      with Some t ps show ?thesis
        by (cases dry) (simp_all add: subscribe_if_given_def id_outcome_def add_workshop_id_eq)
    qed
  qed
qed

lemma reported_subscribe:
  assumes "trace v = trace w @ es"
  shows "reported w (Inr (subscribe_if_given v sub wid dry))
           = Inr (outcomes es @ id_outcome (file_text v sub) wid)"
proof -
  from subscribe_if_given_trace [of v sub wid dry] obtain fs where
    "trace (subscribe_if_given v sub wid dry) = trace v @ fs"
    "outcomes fs = id_outcome (file_text v sub) wid" by blast
  with assms have "trace (subscribe_if_given v sub wid dry) = trace w @ (es @ fs)"
    and "outcomes (es @ fs) = outcomes es @ id_outcome (file_text v sub) wid" by simp_all
  then show ?thesis by (simp add: reported_def)
qed

lemma resolve_paths_separate:
  "resolve_paths use_custom = (gm, sub) \<Longrightarrow> sub \<noteq> gm \<and> sub \<noteq> backup_path gm"
  by (auto simp: resolve_paths_def backup_path_def split: if_splits)

section \<open>The scans depend on the lines they have read\<close>

lemma scan_mapgroups_bounds:
  "scan_mapgroups lines i = Some r \<Longrightarrow> i \<le> r \<and> r < length lines"
proof (induction lines i rule: scan_mapgroups.induct)
  case (1 lines i)
  show ?case
  proof (cases "i < length lines")
    case False
    with "1.prems" show ?thesis by (simp add: scan_mapgroups_stop)
  next
    case True
    show ?thesis
    proof (cases "startswith (lstrip (lines ! i)) ''\"mapgroups\"''")
      case hit: True
      with True "1.prems" show ?thesis by (simp add: scan_mapgroups_hit)
    next
      case False
      with True "1.prems" have "scan_mapgroups lines (i + 1) = Some r"
        by (simp add: scan_mapgroups_step)
      from "1.IH" [OF True False this] show ?thesis by simp
    qed
  qed
qed

lemma scan_mapgroups_prefix:
  assumes "scan_mapgroups lines i = Some r" and "r < n" and "n \<le> length lines'"
    and "\<forall>k<n. lines' ! k = lines ! k"
  shows "scan_mapgroups lines' i = Some r"
  using assms
proof (induction lines i rule: scan_mapgroups.induct)
  case (1 lines i)
  from scan_mapgroups_bounds [OF "1.prems"(1)] "1.prems"(2,3)
  have i: "i < length lines" "i < n" "i < length lines'" by simp_all
  with "1.prems"(4) have same: "lines' ! i = lines ! i" by simp
  show ?case
  proof (cases "startswith (lstrip (lines ! i)) ''\"mapgroups\"''")
    case True
    with i "1.prems"(1) same show ?thesis by (simp add: scan_mapgroups_hit)
  next
    case False
    with i "1.prems"(1) have "scan_mapgroups lines (i + 1) = Some r"
      by (simp add: scan_mapgroups_step)
    from "1.IH" [OF i(1) False this "1.prems"(2,3,4)] False i same
    show ?thesis by (simp add: scan_mapgroups_step)
  qed
qed

lemma scan_open_brace_prefix:
  assumes "scan_open_brace lines i < n" and "n \<le> length lines" and "n \<le> length lines'"
    and "\<forall>k<n. lines' ! k = lines ! k"
  shows "scan_open_brace lines' i = scan_open_brace lines i"
  using assms
proof (induction lines i rule: scan_open_brace.induct)
  case (1 lines i)
  from scan_open_brace_ge [of i lines] "1.prems"(1,2,3)
  have i: "i < n" "i < length lines" "i < length lines'" by simp_all
  with "1.prems"(4) have same: "lines' ! i = lines ! i" by simp
  show ?case
  proof (cases "LBRACE \<notin> set (lines ! i)")
    case True
    with i have step: "scan_open_brace lines i = scan_open_brace lines (i + 1)"
      by (simp add: scan_open_brace_step)
    with "1.prems"(1) have "scan_open_brace lines (i + 1) < n" by simp
    from "1.IH" [OF conjI [OF i(2) True] this "1.prems"(2,3,4)] step True i same
    show ?thesis by (simp add: scan_open_brace_step)
  next
    case False
    with i same show ?thesis by (simp add: scan_open_brace_stop)
  qed
qed

lemma scan_group_prefix:
  assumes "scan_group lines g i d = Some r" and "r < n" and "n \<le> length lines'"
    and "\<forall>k<n. lines' ! k = lines ! k"
  shows "scan_group lines' g i d = Some r"
  using assms
proof (induction lines g i d rule: scan_group.induct)
  case (1 lines g i d)
  from scan_group_bounds [OF "1.prems"(1)] "1.prems"(2,3)
  have i: "i < length lines" "i < n" "i < length lines'" by simp_all
  with "1.prems"(4) have same: "lines' ! i = lines ! i" by simp
  from "1.prems"(1) i have d: "0 < d"
    by (cases "0 < d") (simp_all add: scan_group_stop)
  show ?case
  proof (cases "startswith (strip (lines ! i)) ([DQ] @ g @ [DQ])")
    case True
    with i d "1.prems"(1) same show ?thesis by (simp add: scan_group_hit)
  next
    case False
    with i d "1.prems"(1)
    have "scan_group lines g (i + 1) (brace_step d (lines ! i)) = Some r"
      by (simp add: scan_group_step)
    from "1.IH" [OF conjI [OF i(1) d] refl refl False this "1.prems"(2,3,4)] False i d same
    show ?thesis by (simp add: scan_group_step)
  qed
qed

lemma scan_group_body_prefix:
  assumes "scan_group_body lines g j d = Inr (ms, me, ind)"
    and "ms \<le> length lines'" and "\<forall>k<ms. lines' ! k = lines ! k"
    and "scan_maps_close lines' ms 1 = Some me'"
  shows "\<exists>ind'. scan_group_body lines' g j d = Inr (ms, me', ind')"
  using assms
proof (induction lines g j d rule: scan_group_body.induct)
  case (1 lines g j d)
  from scan_group_body_bounds [OF "1.prems"(1)] "1.prems"(2)
  have j: "j < ms" "j < length lines" "j < length lines'" "ms \<le> length lines" by simp_all
  with "1.prems"(3) have same: "lines' ! j = lines ! j" by simp
  from "1.prems"(1) j have d: "0 < d"
    by (cases "0 < d") (simp_all add: scan_group_body_stop)
  show ?case
  proof (cases "startswith (strip (lines ! j)) ''\"maps\"''")
    case False
    with j d "1.prems"(1)
    have "scan_group_body lines g (j + 1) (brace_step d (lines ! j)) = Inr (ms, me, ind)"
      by (simp add: scan_group_body_step)
    from "1.IH" [OF conjI [OF j(2) d] refl False this "1.prems"(2,3,4)] False j d same
    show ?thesis by (simp add: scan_group_body_step)
  next
    case hdr: True
    let ?k = "scan_open_brace lines j"
    from j d hdr "1.prems"(1) have k: "?k < length lines"
      by (simp add: scan_group_body_hit split: if_splits)
    with j d hdr "1.prems"(1) have ms: "ms = ?k + 1"
      by (simp add: scan_group_body_hit split: option.splits sum.splits)
    then have "?k < ms" by simp
    from scan_open_brace_prefix [OF this j(4) "1.prems"(2,3)]
    have k': "scan_open_brace lines' j = ?k" .
    from scan_maps_close_bounds [OF "1.prems"(4)] have "me' \<le> length lines'" by simp
    from infer_maps_indent_find [OF this, of ms]
    obtain ind' where ind': "infer_maps_indent lines' ms me' = Inr ind'" by blast
    from j d hdr same k' ms "1.prems"(2,4) ind'
    have "scan_group_body lines' g j d = Inr (ms, me', ind')"
      by (simp add: scan_group_body_hit)
    then show ?thesis by blast
  qed
qed

section \<open>The closing brace after an insertion\<close>

lemma scan_maps_close_offset:
  "scan_maps_close lines m d = map_option (\<lambda>r. m + r) (close_offset (drop m lines) d)"
proof (induction lines m d rule: scan_maps_close.induct)
  case (1 lines m d)
  show ?case
  proof (cases "m < length lines")
    case False
    then show ?thesis by (simp add: scan_maps_close_stop)
  next
    case True
    then have dr: "drop m lines = lines ! m # drop (m + 1) lines"
      by (simp add: Cons_nth_drop_Suc)
    show ?thesis
    proof (cases "0 < d")
      case False
      with dr show ?thesis by (simp add: scan_maps_close_stop)
    next
      case pos: True
      let ?d = "d + str_count (lines ! m) LBRACE - str_count (lines ! m) RBRACE"
      show ?thesis
      proof (cases "?d = 0")
        case zero: True
        with True pos have "scan_maps_close lines m d = Some m"
          by (simp add: scan_maps_close_hit)
        moreover from zero pos have "close_offset (lines ! m # drop (m + 1) lines) d = Some 0"
          by (simp add: Let_def)
        ultimately show ?thesis by (simp add: dr)
      next
        case False
        from "1.IH" [OF conjI [OF True pos] refl False]
        have ih: "scan_maps_close lines (m + 1) ?d
                = map_option (\<lambda>r. m + 1 + r) (close_offset (drop (m + 1) lines) ?d)" .
        from False pos
        have "close_offset (lines ! m # drop (m + 1) lines) d
                = map_option Suc (close_offset (drop (m + 1) lines) ?d)"
          by (simp add: Let_def)
        with True pos False ih dr show ?thesis
          by (simp add: scan_maps_close_step option.map_comp comp_def)
      qed
    qed
  qed
qed

lemma close_offset_positive: "close_offset ls d = Some r \<Longrightarrow> 0 < d"
  by (cases ls) (simp_all split: if_splits)

lemma close_offset_plain_prefix:
  assumes "close_offset rest d = Some r"
    and "\<forall>p \<in> set ps. LBRACE \<notin> set p \<and> RBRACE \<notin> set p"
  shows "close_offset (ps @ rest) d = Some (length ps + r)"
  using assms(2)
proof (induction ps)
  case Nil
  from assms(1) show ?case by simp
next
  case (Cons p ps)
  then have "str_count p LBRACE = 0" "str_count p RBRACE = 0"
    by (simp_all add: str_count_zero_iff)
  with Cons close_offset_positive [OF assms(1)] show ?case by (simp add: Let_def)
qed

lemma close_offset_insert:
  assumes "close_offset (a @ post) d = Some r" and "length a \<le> r"
    and "\<forall>p \<in> set ps. LBRACE \<notin> set p \<and> RBRACE \<notin> set p"
  shows "close_offset (a @ ps @ post) d = Some (r + length ps)"
  using assms(1,2)
proof (induction a arbitrary: d r)
  case Nil
  from close_offset_plain_prefix [OF _ assms(3), of post d r] Nil show ?case
    by (simp add: add.commute)
next
  case (Cons l a)
  let ?d = "d + str_count l LBRACE - str_count l RBRACE"
  from Cons.prems(1) have pos: "0 < d" by (rule close_offset_positive)
  from Cons.prems(2) have r: "r \<noteq> 0" by auto
  with Cons.prems(1) pos have nz: "?d \<noteq> 0"
    by (auto simp: Let_def split: if_splits)
  with Cons.prems(1) pos have "map_option Suc (close_offset (a @ post) ?d) = Some r"
    by (simp add: Let_def)
  then obtain r' where r': "close_offset (a @ post) ?d = Some r'" "r = Suc r'"
    by auto
  with Cons.prems(2) have "length a \<le> r'" by simp
  from Cons.IH [OF r'(1) this] r'(2) pos nz show ?case by (simp add: Let_def)
qed

lemma scan_maps_close_insert:
  assumes "scan_maps_close lines ms d = Some me" and "ms \<le> idx" and "idx \<le> me"
    and "\<forall>p \<in> set ps. LBRACE \<notin> set p \<and> RBRACE \<notin> set p"
  shows "scan_maps_close (take idx lines @ ps @ drop idx lines) ms d = Some (me + length ps)"
proof -
  from scan_maps_close_bounds [OF assms(1)] assms(3) have len: "idx \<le> length lines" by simp
  let ?a = "take (idx - ms) (drop ms lines)"
  have split: "drop ms lines = ?a @ drop idx lines"
  proof -
    from assms(2) have "drop (idx - ms) (drop ms lines) = drop idx lines" by simp
    with append_take_drop_id [of "idx - ms" "drop ms lines"] show ?thesis by simp
  qed
  from assms(2) len have la: "length ?a = idx - ms" by simp
  from assms(1) have "map_option (\<lambda>r. ms + r) (close_offset (drop ms lines) d) = Some me"
    by (simp add: scan_maps_close_offset)
  then obtain r where r: "close_offset (drop ms lines) d = Some r" "me = ms + r" by auto
  from r(1) split have c: "close_offset (?a @ drop idx lines) d = Some r" by simp
  from r(2) assms(2,3) la have "length ?a \<le> r" by simp
  from close_offset_insert [OF c this assms(4)]
  have ins: "close_offset (?a @ ps @ drop idx lines) d = Some (r + length ps)" .
  from assms(2) len have "drop ms (take idx lines @ ps @ drop idx lines)
        = drop ms (take idx lines) @ ps @ drop idx lines" by simp
  also have "drop ms (take idx lines) = ?a" by (simp add: drop_take)
  finally have "drop ms (take idx lines @ ps @ drop idx lines) = ?a @ ps @ drop idx lines" .
  with ins r(2) show ?thesis by (simp add: scan_maps_close_offset)
qed

section \<open>The keys of a block\<close>

lemma current_maps_in_block_stop: "\<not> s < e \<Longrightarrow> current_maps_in_block lines s e = Inr []"
  by (subst current_maps_in_block.simps) simp

lemma current_maps_in_block_step:
  "s < e \<Longrightarrow> s < length lines \<Longrightarrow>
     current_maps_in_block lines s e =
       (case current_maps_in_block lines (s + 1) e of
          Inl err \<Rightarrow> Inl err
        | Inr maps \<Rightarrow>
            if startswith (strip (lines ! s)) [DQ] \<and> DQ \<in> set (strip (lines ! s))
            then Inr ((split_on (strip (lines ! s)) DQ ! 1) # maps)
            else Inr maps)"
  by (subst current_maps_in_block.simps) (simp add: Let_def)

lemma current_maps_in_block_keys:
  "e \<le> length lines \<Longrightarrow>
     current_maps_in_block lines s e = Inr (entry_keys (block_lines lines s e))"
proof (induction lines s e rule: current_maps_in_block.induct)
  case (1 lines s e)
  show ?case
  proof (cases "s < e")
    case False
    then show ?thesis
      by (simp add: current_maps_in_block_stop block_lines_Nil entry_keys_def)
  next
    case True
    with "1.prems" have in_range: "s < length lines" by simp
    from "1.IH" [OF True in_range refl "1.prems"]
    have "current_maps_in_block lines (s + 1) e = Inr (entry_keys (block_lines lines (s + 1) e))" .
    with True in_range show ?thesis
      by (simp add: current_maps_in_block_step block_lines_Cons entry_keys_def)
  qed
qed

section \<open>Locating the block again after the entry was written\<close>

lemma find_in_set: "find P xs = Some x \<Longrightarrow> x \<in> set xs"
  by (induction xs) (auto split: if_splits)

lemma block_lines_subset: "set (block_lines lines s e) \<subseteq> set lines"
proof -
  have "set (block_lines lines s e) \<subseteq> set (drop s lines)"
    unfolding block_lines_def by (rule set_take_subset)
  also have "\<dots> \<subseteq> set lines" by (rule set_drop_subset)
  finally show ?thesis .
qed

lemma indent_spaces:
  assumes "doc_shaped lines" and "e \<le> length lines" and "infer_maps_indent lines s e = Inr ind"
  shows "\<forall>c \<in> set ind. is_space c \<and> c \<noteq> CR"
proof (cases "find indent_donor (block_lines lines s e)")
  case None
  with infer_maps_indent_find [OF assms(2), of s] assms(3)
  have "ind = replicate 4 TAB" by simp
  then show ?thesis by auto
next
  case (Some line)
  with infer_maps_indent_find [OF assms(2), of s] assms(3)
  have ind: "ind = takeWhile is_space line" by (simp add: leading_whitespace_def)
  from find_in_set [OF Some] block_lines_subset have "line \<in> set lines" by blast
  with assms(1) have "CR \<notin> set line" by (simp add: doc_shaped_def line_shaped_def)
  moreover have "set (takeWhile is_space line) \<subseteq> set line" by (blast dest: set_takeWhileD)
  ultimately have "CR \<notin> set ind" using ind by blast
  moreover have "\<forall>c \<in> set ind. is_space c" unfolding ind by (blast dest: set_takeWhileD)
  ultimately show ?thesis by blast
qed

lemma locate_after_insert:
  assumes l: "find_group_and_maps_block lines g = Inr (gs, ms, me, ind)"
    and idx: "ms \<le> idx" "idx \<le> me"
    and plain: "\<forall>p \<in> set (pre @ [q]). LBRACE \<notin> set p \<and> RBRACE \<notin> set p"
    and q: "strip q = [DQ] @ key @ [DQ, TAB, TAB, DQ, DQ]" and key: "DQ \<notin> set key"
  shows "\<exists>me' ind' keys'.
           find_group_and_maps_block (take idx lines @ (pre @ [q]) @ drop idx lines) g
             = Inr (gs, ms, me', ind')
         \<and> current_maps_in_block (take idx lines @ (pre @ [q]) @ drop idx lines) ms me' = Inr keys'
         \<and> key \<in> set keys'"
proof -
  let ?ps = "pre @ [q]"
  let ?L = "take idx lines @ ?ps @ drop idx lines"
  from locate_bounds [OF l] have b: "gs < ms" "ms \<le> me" "me < length lines" by simp_all
  from l obtain i where
    i: "scan_mapgroups lines 0 = Some i"
    and ob: "scan_open_brace lines (i + 1) < length lines"
    and g: "scan_group lines g (scan_open_brace lines (i + 1) + 1) 1 = Some gs"
    and oj: "scan_open_brace lines gs < length lines"
    and body: "scan_group_body lines g (scan_open_brace lines gs + 1) 1 = Inr (ms, me, ind)"
    by (rule locate_unfold)
  let ?b = "scan_open_brace lines (i + 1)" and ?j = "scan_open_brace lines gs"
  from scan_group_body_bounds [OF body] have jm: "?j + 1 < ms" by simp
  from scan_group_bounds [OF g] have bg: "?b + 1 \<le> gs" by simp
  from scan_open_brace_ge [of "i + 1" lines] have ib: "i + 1 \<le> ?b" .
  from scan_open_brace_ge [of gs lines] have gj: "gs \<le> ?j" .
  from idx b have il: "idx \<le> length lines" by simp
  then have lenL: "length ?L = length lines + length ?ps" by simp
  with b have msL: "ms \<le> length ?L" "ms \<le> length lines" by simp_all
  have agree: "\<forall>k<ms. ?L ! k = lines ! k"
  proof (intro allI impI)
    fix k assume "k < ms"
    with idx il have "k < length (take idx lines)" by simp
    then have "?L ! k = take idx lines ! k" by (simp add: nth_append)
    also from \<open>k < ms\<close> idx have "\<dots> = lines ! k" by simp
    finally show "?L ! k = lines ! k" .
  qed
  from ib bg gj jm have small: "i < ms" "?b < ms" "gs < ms" "?j < ms" by simp_all
  from scan_mapgroups_prefix [OF i small(1) msL(1) agree]
  have i': "scan_mapgroups ?L 0 = Some i" .
  from scan_open_brace_prefix [OF small(2) msL(2) msL(1) agree]
  have b': "scan_open_brace ?L (i + 1) = ?b" .
  from scan_group_prefix [OF g small(3) msL(1) agree]
  have g': "scan_group ?L g (?b + 1) 1 = Some gs" .
  from scan_open_brace_prefix [OF small(4) msL(2) msL(1) agree]
  have j': "scan_open_brace ?L gs = ?j" .
  from locate_maps_header [OF l] have "scan_maps_close lines ms 1 = Some me" by blast
  from scan_maps_close_insert [OF this idx plain]
  have close: "scan_maps_close ?L ms 1 = Some (me + length ?ps)" .
  from scan_group_body_prefix [OF body msL(1) agree close]
  obtain ind' where body': "scan_group_body ?L g (?j + 1) 1 = Inr (ms, me + length ?ps, ind')"
    by blast
  from small msL have "?b < length ?L" "?j < length ?L" by simp_all
  with i' b' g' j' body'
  have loc: "find_group_and_maps_block ?L g = Inr (gs, ms, me + length ?ps, ind')"
    by (simp add: find_group_and_maps_block_def Let_def)
  from b lenL have "me + length ?ps \<le> length ?L" by simp
  from current_maps_in_block_keys [OF this, of ms]
  have keys: "current_maps_in_block ?L ms (me + length ?ps)
                = Inr (entry_keys (block_lines ?L ms (me + length ?ps)))" .
  have "q \<in> set (block_lines ?L ms (me + length ?ps))"
  proof -
    let ?a = "drop ms (take idx lines)"
    from idx il have dL: "drop ms ?L = (?a @ ?ps) @ drop idx lines" by simp
    from idx il have "length (?a @ ?ps) = idx - ms + length ?ps" by simp
    with idx have "length (?a @ ?ps) \<le> me + length ?ps - ms" by simp
    then have "take (me + length ?ps - ms) ((?a @ ?ps) @ drop idx lines)
        = (?a @ ?ps) @ take (me + length ?ps - ms - length (?a @ ?ps)) (drop idx lines)"
      by (simp only: take_append) simp
    with dL show ?thesis by (simp add: block_lines_def)
  qed
  from entry_keys_member [OF this q key]
  have "key \<in> set (entry_keys (block_lines ?L ms (me + length ?ps)))" .
  with loc keys show ?thesis by blast
qed

lemma second_read_finds_key:
  assumes doc: "doc_shaped lines"
    and l: "find_group_and_maps_block lines g = Inr (gs, ms, me, ind)"
    and plain: "key_plain key"
  shows "\<exists>me' ind' keys'.
           find_group_and_maps_block
             (splitlines True (universal_newlines (concat (insert_map lines ms me ind key pos)))) g
             = Inr (gs, ms, me', ind')
         \<and> current_maps_in_block
             (splitlines True (universal_newlines (concat (insert_map lines ms me ind key pos))))
             ms me' = Inr keys'
         \<and> key \<in> set keys'"
proof -
  let ?nl = "new_entry_line ind key"
  define idx where "idx = (if pos = ''start'' then ms else me)"
  from locate_bounds [OF l] have b: "ms \<le> me" "me < length lines"
    and inf: "infer_maps_indent lines ms me = Inr ind" by simp_all
  from b have idx: "ms \<le> idx" "idx \<le> me" "idx < length lines" by (simp_all add: idx_def)
  have ins: "insert_map lines ms me ind key pos = list_insert lines idx ?nl"
    by (simp add: insert_map_def idx_def)
  from b have "me \<le> length lines" by simp
  from indent_spaces [OF doc this inf] have sp: "\<forall>c \<in> set ind. is_space c \<and> c \<noteq> CR" .
  from new_entry_line_pieces [OF sp plain] obtain pre q where
    pieces: "splitlines True ?nl = pre @ [q]"
    and q: "strip q = [DQ] @ key @ [DQ, TAB, TAB, DQ, DQ]"
    and br: "\<forall>p \<in> set (pre @ [q]). LBRACE \<notin> set p \<and> RBRACE \<notin> set p" by blast
  have "CR \<notin> set key"
  proof
    assume "CR \<in> set key"
    with plain have "\<not> is_linebreak CR" unfolding key_plain_def by blast
    then show False by simp
  qed
  moreover from sp have "CR \<notin> set ind" by blast
  ultimately have cr: "CR \<notin> set ?nl" by (simp add: new_entry_line_def)
  have ne: "?nl \<noteq> []" and lb: "is_linebreak (last ?nl)" by (simp_all add: new_entry_line_def)
  from readback_insert [OF doc idx(3) cr ne lb] pieces ins
  have rb: "splitlines True (universal_newlines (concat (insert_map lines ms me ind key pos)))
          = take idx lines @ (pre @ [q]) @ drop idx lines" by simp
  from plain have "DQ \<notin> set key" unfolding key_plain_def by blast
  from locate_after_insert [OF l idx(1,2) br q this] rb show ?thesis by simp
qed

section \<open>The keys read from a block are the first quoted strings of its lines\<close>







section \<open>A run that finds the key\<close>

lemma written_paths_more [simp]:
  "written_paths (Mkdir p # es) = p # written_paths es"
  "written_paths (Append p # es) = p # written_paths es"
  "written_paths (WriteText p # es) = p # written_paths es"
  "written_paths (Copy p q # es) = q # written_paths es"
  by (simp_all add: written_paths_def)

lemma subscribe_if_given_frame:
  "\<exists>es. trace (subscribe_if_given v sub wid dry) = trace v @ es
        \<and> set (written_paths es) \<subseteq> {sub}
        \<and> (\<forall>p. p \<noteq> sub \<longrightarrow> files (subscribe_if_given v sub wid dry) p = files v p)"
proof (cases wid)
  case None
  then show ?thesis by (simp add: subscribe_if_given_def)
next
  case (Some t)
  from probed_trace [of v sub] obtain ps where
    ps: "trace (probed v sub) = trace v @ ps" "written_paths ps = []"
    by blast
  show ?thesis
  proof (cases "t = []")
    case True
    with Some show ?thesis by (simp add: subscribe_if_given_def)
  next
    case t: False
    show ?thesis
    proof (cases "t \<in> set (existing_ids (universal_newlines (file_text v sub)))")
      case True
      with Some t ps show ?thesis
        by (simp add: subscribe_if_given_def add_workshop_id_eq)
    next
      case False
      with Some t ps show ?thesis
        by (cases dry) (simp_all add: subscribe_if_given_def add_workshop_id_eq)
    qed
  qed
qed

lemma skip_run_frame:
  assumes "sub \<noteq> gm" and "files w1 gm = Some raw"
    and "find_group_and_maps_block (splitlines True (universal_newlines raw)) g
           = Inr (gs, ms, me, ind)"
    and "current_maps_in_block (splitlines True (universal_newlines raw)) ms me = Inr keys"
    and "format_map_key name wid \<in> set keys"
  shows "\<exists>w2. add_map_to_group w1 gm sub g name wid dry pos = Inr w2
          \<and> files w2 gm = files w1 gm
          \<and> take 1 (outcomes (new_events w1 w2)) = [MapPresent]
          \<and> set (written_paths (new_events w1 w2)) \<subseteq> {sub}"
proof -
  let ?v = "emit (Print (MsgSkipMap g (format_map_key name wid))) (emit (ReadText gm) w1)"
  let ?w2 = "subscribe_if_given ?v sub wid dry"
  have run: "add_map_to_group w1 gm sub g name wid dry pos = Inr ?w2"
    by (rule add_map_to_group_skip [OF assms(2-5)])
  from subscribe_if_given_frame [of ?v sub wid dry] obtain es where
    es: "trace ?w2 = trace ?v @ es" "set (written_paths es) \<subseteq> {sub}"
      "\<forall>p. p \<noteq> sub \<longrightarrow> files ?w2 p = files ?v p" by blast
  from es(1) have "trace ?w2
      = trace w1 @ ([ReadText gm, Print (MsgSkipMap g (format_map_key name wid))] @ es)" by simp
  from new_events_append [OF this]
  have ne: "new_events w1 ?w2 = [ReadText gm, Print (MsgSkipMap g (format_map_key name wid))] @ es" .
  from es(3) assms(1) have "files ?w2 gm = files w1 gm" by simp
  moreover from ne have "take 1 (outcomes (new_events w1 ?w2)) = [MapPresent]" by simp
  moreover from ne es(2) have "set (written_paths (new_events w1 ?w2)) \<subseteq> {sub}" by simp
  ultimately show ?thesis using run by blast
qed

section \<open>Claims\<close>

text \<open>
  C1. The claim: the indentation token is the leading whitespace of the first line of the
  block whose trimmed content starts with a double quote, and four tabs when the block has
  no such line. The code breaks it. In \<open>indent_doc\<close> the maps block \<open>6 \<le> i < 8\<close> holds a
  comment line indented with two tabs and then an entry indented with three. The comment
  line does not start with a quote; the entry is the first line of the block that does,
  and its leading whitespace is three tabs. The token the locator returns is the two tabs
  of the comment line: the first condition of \<^verbatim>\<open>infer_maps_indent\<close> ends in
  \<^verbatim>\<open>or '\t' in lines[i]\<close>, which holds for every line with a tab, while the comment
  above the loop reads \<^verbatim>\<open>Look for the first existing map entry\<close>.
\<close>
theorem inferred_indent_at_comment_line:
  "find_group_and_maps_block indent_doc ''mg_active'' = Inr (2, 6, 8, [TAB, TAB])
   \<and> \<not> quoted_entry (indent_doc ! 6)
   \<and> quoted_entry (indent_doc ! 7)
   \<and> leading_whitespace (indent_doc ! 7) = [TAB, TAB, TAB]"
  by code_simp

text \<open>
  C2, as the code has it. Let the subscription list not be the primary file, and let the
  entry key hold no double quote, no brace and no line boundary. After a run that
  returned, a second run with the same arguments returns too: it reports the map as
  already present, leaves the primary file with the content the first run left, and
  writes no path other than the subscription list.
\<close>
theorem add_map_idempotent:
  assumes "sub \<noteq> gm" and "key_plain (format_map_key name wid)"
    and "add_map_to_group w gm sub g name wid False pos = Inr w1"
  shows "case add_map_to_group w1 gm sub g name wid False pos of
           Inl e \<Rightarrow> False
         | Inr w2 \<Rightarrow> files w2 gm = files w1 gm
                     \<and> take 1 (outcomes (new_events w1 w2)) = [MapPresent]
                     \<and> set (written_paths (new_events w1 w2)) \<subseteq> {sub}"
proof -
  let ?key = "format_map_key name wid"
  have "\<exists>w2. add_map_to_group w1 gm sub g name wid False pos = Inr w2
          \<and> files w2 gm = files w1 gm
          \<and> take 1 (outcomes (new_events w1 w2)) = [MapPresent]
          \<and> set (written_paths (new_events w1 w2)) \<subseteq> {sub}"
    using assms(3)
  proof (cases rule: add_map_to_group_success_cases)
    case (skip raw gs ms me ind keys)
    let ?v = "emit (Print (MsgSkipMap g ?key)) (emit (ReadText gm) w)"
    from add_map_to_group_skip [OF skip, of sub False pos] assms(3)
    have w1: "w1 = subscribe_if_given ?v sub wid False" by simp
    from subscribe_if_given_frame [of ?v sub wid False] assms(1) w1
    have "files w1 gm = files ?v gm" by auto
    with skip(1) have "files w1 gm = Some raw" by simp
    from skip_run_frame [OF assms(1) this skip(2,3,4)] show ?thesis .
  next
    case (insert raw gs ms me ind keys)
    let ?lines = "splitlines True (universal_newlines raw)"
    let ?v = "emit (Print (MsgAddedMap g ?key False))
                 (write_lines
                    (emit (Print (MsgBackup (backup_path gm)))
                       (emit (Copy gm (backup_path gm))
                          ((emit (ReadText gm) w)\<lparr>files := (files w)(backup_path gm \<mapsto> raw)\<rparr>)))
                    gm (insert_map ?lines ms me ind ?key pos))"
    from add_map_to_group_insert_written [OF insert, of sub pos] assms(3)
    have w1: "w1 = subscribe_if_given ?v sub wid False" by simp
    from subscribe_if_given_frame [of ?v sub wid False] assms(1) w1
    have "files w1 gm = files ?v gm" by auto
    then have f1: "files w1 gm = Some (concat (insert_map ?lines ms me ind ?key pos))"
      by (simp add: write_lines_def)
    have "doc_shaped ?lines"
      by (rule doc_shaped_splitlines [OF universal_newlines_no_CR])
    from second_read_finds_key [OF this insert(2) assms(2), of pos]
    obtain me' ind' keys' where
      "find_group_and_maps_block
         (splitlines True (universal_newlines (concat (insert_map ?lines ms me ind ?key pos)))) g
         = Inr (gs, ms, me', ind')"
      "current_maps_in_block
         (splitlines True (universal_newlines (concat (insert_map ?lines ms me ind ?key pos))))
         ms me' = Inr keys'"
      "?key \<in> set keys'" by blast
    from skip_run_frame [OF assms(1) f1 this] show ?thesis .
  qed
  then show ?thesis by auto
qed

theorem add_map_idempotent_witness:
  "''game/csgo/subscribed_file_ids.txt'' \<noteq> ''game/csgo/gamemodes_server.txt''
   \<and> key_plain (format_map_key ''de_train'' None)
   \<and> add_map_to_group example_world ''game/csgo/gamemodes_server.txt''
        ''game/csgo/subscribed_file_ids.txt'' ''mg_active'' ''de_train'' None False ''end''
       = Inr (emit (Print (MsgAddedMap ''mg_active'' ''de_train'' False))
                (write_lines
                   (emit (Print (MsgBackup (backup_path ''game/csgo/gamemodes_server.txt'')))
                      (emit (Copy ''game/csgo/gamemodes_server.txt''
                               (backup_path ''game/csgo/gamemodes_server.txt''))
                         ((emit (ReadText ''game/csgo/gamemodes_server.txt'') example_world)
                            \<lparr>files := (files example_world)
                               (backup_path ''game/csgo/gamemodes_server.txt'' \<mapsto> concat example_doc)\<rparr>)))
                   ''game/csgo/gamemodes_server.txt''
                   (insert_map example_doc 9 11 [TAB, TAB, TAB, TAB] ''de_train'' ''end'')))
   \<and> primary_text
        (add_map_twice example_world ''game/csgo/gamemodes_server.txt''
           ''game/csgo/subscribed_file_ids.txt'' ''mg_active'' ''de_train'' None False ''end'')
        ''game/csgo/gamemodes_server.txt''
       = Some (concat (insert_map example_doc 9 11 [TAB, TAB, TAB, TAB] ''de_train'' ''end''))"
proof -
  let ?gm = "''game/csgo/gamemodes_server.txt''" and ?sub = "''game/csgo/subscribed_file_ids.txt''"
  let ?w1 = "emit (Print (MsgAddedMap ''mg_active'' ''de_train'' False))
                (write_lines
                   (emit (Print (MsgBackup (backup_path ?gm)))
                      (emit (Copy ?gm (backup_path ?gm))
                         ((emit (ReadText ?gm) example_world)
                            \<lparr>files := (files example_world)(backup_path ?gm \<mapsto> concat example_doc)\<rparr>)))
                   ?gm (insert_map example_doc 9 11 [TAB, TAB, TAB, TAB] ''de_train'' ''end''))"
  have d: "?sub \<noteq> ?gm" by simp
  have kp: "key_plain (format_map_key ''de_train'' None)"
    by (simp add: key_plain_def format_map_key_def is_linebreak_def)
  have l: "find_group_and_maps_block (splitlines True (universal_newlines (concat example_doc)))
             ''mg_active'' = Inr (4, 9, 11, [TAB, TAB, TAB, TAB])"
    by (simp only: example_doc_read example_doc_located)
  have k: "current_maps_in_block (splitlines True (universal_newlines (concat example_doc))) 9 11
             = Inr [''de_inferno'', ''workshop/12345/de_dust2'']"
    by (simp only: example_doc_read example_doc_keys)
  have n: "format_map_key ''de_train'' None \<notin> set [''de_inferno'', ''workshop/12345/de_dust2'']"
    by (simp add: format_map_key_def)
  have run: "add_map_to_group example_world ?gm ?sub ''mg_active'' ''de_train'' None False ''end''
               = Inr ?w1"
    using add_map_to_group_insert_written [OF example_world_primary l k n, of ?sub "''end''"]
    by (simp add: subscribe_if_given_def format_map_key_def example_doc_read)
  have f1: "files ?w1 ?gm
              = Some (concat (insert_map example_doc 9 11 [TAB, TAB, TAB, TAB] ''de_train'' ''end''))"
    by (simp add: write_lines_def)
  from add_map_idempotent [OF d kp run]
  have "primary_text (add_map_to_group ?w1 ?gm ?sub ''mg_active'' ''de_train'' None False ''end'') ?gm
          = files ?w1 ?gm"
    by (auto simp: primary_text_def split: sum.splits)
  with run f1 have "primary_text
        (add_map_twice example_world ?gm ?sub ''mg_active'' ''de_train'' None False ''end'') ?gm
       = Some (concat (insert_map example_doc 9 11 [TAB, TAB, TAB, TAB] ''de_train'' ''end''))"
    by (simp add: add_map_twice_def)
  with d kp run show ?thesis by blast
qed

text \<open>
  C2 as stated fails. The map name \<open>de_dust2}\<close> holds a closing brace. The first run writes
  its entry before the closing brace of the block; the second run takes the new line for
  the end of the block, does not read a key from it, and writes the entry once more.
\<close>
theorem add_map_idempotent_counterexample:
  "primary_text
     (add_map_to_group example_world ''game/csgo/gamemodes_server.txt''
        ''game/csgo/subscribed_file_ids.txt'' ''mg_active'' ''de_dust2}'' None False ''end'')
     ''game/csgo/gamemodes_server.txt''
     = Some (concat (list_insert example_doc 11
                      (new_entry_line [TAB, TAB, TAB, TAB] ''de_dust2}'')))
   \<and> primary_text
     (add_map_twice example_world ''game/csgo/gamemodes_server.txt''
        ''game/csgo/subscribed_file_ids.txt'' ''mg_active'' ''de_dust2}'' None False ''end'')
     ''game/csgo/gamemodes_server.txt''
     = Some (concat (list_insert
                      (list_insert example_doc 11 (new_entry_line [TAB, TAB, TAB, TAB] ''de_dust2}''))
                      11 (new_entry_line [TAB, TAB, TAB, TAB] ''de_dust2}'')))
   \<and> primary_text
     (add_map_twice example_world ''game/csgo/gamemodes_server.txt''
        ''game/csgo/subscribed_file_ids.txt'' ''mg_active'' ''de_dust2}'' None False ''end'')
     ''game/csgo/gamemodes_server.txt''
     \<noteq> primary_text
     (add_map_to_group example_world ''game/csgo/gamemodes_server.txt''
        ''game/csgo/subscribed_file_ids.txt'' ''mg_active'' ''de_dust2}'' None False ''end'')
     ''game/csgo/gamemodes_server.txt''"
  by code_simp

text \<open>
  C3. Inserting into a located block leaves every line before \<open>maps_content_start\<close> where
  it was, moves every line after \<open>maps_content_end\<close> down by one index with its content
  unchanged, and the closing-brace line keeps its content at index \<open>maps_content_end + 1\<close>.
\<close>

theorem insert_map_frame:
  assumes "find_group_and_maps_block lines g = Inr (gs, ms, me, ind)"
  shows "length (insert_map lines ms me ind key pos) = length lines + 1
     \<and> (\<forall>k < ms. insert_map lines ms me ind key pos ! k = lines ! k)
     \<and> (\<forall>k. me < k \<and> k < length lines \<longrightarrow> insert_map lines ms me ind key pos ! (k + 1) = lines ! k)
     \<and> insert_map lines ms me ind key pos ! (me + 1) = lines ! me
     \<and> RBRACE \<in> set (lines ! me)"
proof -
  from locate_bounds [OF assms] have b: "ms \<le> me" "me < length lines" by simp_all
  from locate_maps_header [OF assms] have "RBRACE \<in> set (lines ! me)"
    by (auto dest: scan_maps_close_rbrace)
  with b show ?thesis
    by (simp add: insert_map_def Let_def list_insert_length list_insert_before list_insert_after)
qed

theorem insert_map_frame_witness:
  "find_group_and_maps_block example_doc ''mg_active'' = Inr (4, 9, 11, [TAB, TAB, TAB, TAB])
   \<and> length (insert_map example_doc 9 11 [TAB, TAB, TAB, TAB] ''de_train'' ''end'') = 16
   \<and> insert_map example_doc 9 11 [TAB, TAB, TAB, TAB] ''de_train'' ''end'' ! 12 = example_doc ! 11"
proof -
  have h: "find_group_and_maps_block example_doc ''mg_active'' = Inr (4, 9, 11, [TAB, TAB, TAB, TAB])"
    by (rule example_doc_located)
  have l: "length example_doc = 15" by (simp add: example_doc_def)
  from insert_map_frame [OF h, of "''de_train''" "''end''"] h l show ?thesis by simp
qed

text \<open>
  C4. For a located block and a key that is not among its entries: with position
  \<open>start\<close> the new entry line is at index \<open>maps_content_start\<close>, right after the line
  holding the opening brace of the maps block; with position \<open>end\<close> it is at the old
  index of the closing brace, which follows it unchanged. In both cases removing the new
  line gives back the original document, so the old lines keep their order.
\<close>

theorem insert_map_position:
  assumes "find_group_and_maps_block lines g = Inr (gs, ms, me, ind)"
    and "current_maps_in_block lines ms me = Inr keys"
    and "key \<notin> set keys"
  shows "(insert_map lines ms me ind key ''start'' ! ms = new_entry_line ind key
          \<and> insert_map lines ms me ind key ''start'' ! (ms - 1) = lines ! (ms - 1)
          \<and> LBRACE \<in> set (lines ! (ms - 1))
          \<and> take ms (insert_map lines ms me ind key ''start'')
              @ drop (ms + 1) (insert_map lines ms me ind key ''start'') = lines)
       \<and> (insert_map lines ms me ind key ''end'' ! me = new_entry_line ind key
          \<and> insert_map lines ms me ind key ''end'' ! (me + 1) = lines ! me
          \<and> RBRACE \<in> set (lines ! me)
          \<and> take me (insert_map lines ms me ind key ''end'')
              @ drop (me + 1) (insert_map lines ms me ind key ''end'') = lines)"
proof -
  from locate_bounds [OF assms(1)]
  have b: "gs < ms" "ms \<le> me" "me < length lines" "LBRACE \<in> set (lines ! (ms - 1))"
    by simp_all
  from locate_maps_header [OF assms(1)] have r: "RBRACE \<in> set (lines ! me)"
    by (auto dest: scan_maps_close_rbrace)
  from b have s1: "insert_map lines ms me ind key ''start'' ! ms = new_entry_line ind key"
    by (simp add: insert_map_def list_insert_at)
  from b have s2: "insert_map lines ms me ind key ''start'' ! (ms - 1) = lines ! (ms - 1)"
    by (simp add: insert_map_def list_insert_before)
  from b have s3: "take ms (insert_map lines ms me ind key ''start'')
              @ drop (ms + 1) (insert_map lines ms me ind key ''start'') = lines"
    using list_insert_remove [of ms lines] by (simp add: insert_map_def)
  from b have e1: "insert_map lines ms me ind key ''end'' ! me = new_entry_line ind key"
    by (simp add: insert_map_def list_insert_at)
  from b have e2: "insert_map lines ms me ind key ''end'' ! (me + 1) = lines ! me"
    by (simp add: insert_map_def list_insert_after)
  from b have e3: "take me (insert_map lines ms me ind key ''end'')
              @ drop (me + 1) (insert_map lines ms me ind key ''end'') = lines"
    using list_insert_remove [of me lines] by (simp add: insert_map_def)
  from s1 s2 s3 e1 e2 e3 b r show ?thesis by blast
qed

theorem insert_map_position_witness:
  "find_group_and_maps_block example_doc ''mg_active'' = Inr (4, 9, 11, [TAB, TAB, TAB, TAB])
   \<and> current_maps_in_block example_doc 9 11 = Inr [''de_inferno'', ''workshop/12345/de_dust2'']
   \<and> ''de_train'' \<notin> set [''de_inferno'', ''workshop/12345/de_dust2'']
   \<and> insert_map example_doc 9 11 [TAB, TAB, TAB, TAB] ''de_train'' ''start'' ! 9
        = new_entry_line [TAB, TAB, TAB, TAB] ''de_train''
   \<and> insert_map example_doc 9 11 [TAB, TAB, TAB, TAB] ''de_train'' ''end'' ! 11
        = new_entry_line [TAB, TAB, TAB, TAB] ''de_train''"
proof -
  have h: "find_group_and_maps_block example_doc ''mg_active'' = Inr (4, 9, 11, [TAB, TAB, TAB, TAB])"
    by (rule example_doc_located)
  have k: "current_maps_in_block example_doc 9 11 = Inr [''de_inferno'', ''workshop/12345/de_dust2'']"
    by (rule example_doc_keys)
  have n: "''de_train'' \<notin> set [''de_inferno'', ''workshop/12345/de_dust2'']" by simp
  from insert_map_position [OF h k n] h k n show ?thesis by simp
qed



text \<open>
  C6, as the code has it. A missing primary file makes the operation fail with
  \<open>MissingFile\<close>, whatever the other arguments are, so before the document is parsed.
  An existing, empty primary file is read and handed to the locator, which fails with
  \<open>SectionNotFound\<close>.
\<close>

theorem missing_or_empty_primary:
  "(files w gm = None \<longrightarrow>
      add_map_to_group w gm sub g name wid dry pos = Inl (MissingFile gm))
   \<and> (files w gm = Some [] \<longrightarrow>
      add_map_to_group w gm sub g name wid dry pos = Inl SectionNotFound)"
  by (simp add: add_map_to_group_def read_lines_def locate_empty)

theorem missing_or_empty_primary_witness:
  "add_map_to_group \<lparr>files = Map.empty, trace = []\<rparr> ''game/csgo/gamemodes_server.txt''
      ''game/csgo/subscribed_file_ids.txt'' ''mg_active'' ''de_train'' None False ''end''
     = Inl (MissingFile ''game/csgo/gamemodes_server.txt'')
   \<and> add_map_to_group \<lparr>files = [''game/csgo/gamemodes_server.txt'' \<mapsto> []], trace = []\<rparr>
      ''game/csgo/gamemodes_server.txt''
      ''game/csgo/subscribed_file_ids.txt'' ''mg_active'' ''de_train'' None False ''end''
     = Inl SectionNotFound"
  using missing_or_empty_primary [of "\<lparr>files = Map.empty, trace = []\<rparr>" "''game/csgo/gamemodes_server.txt''"
      "''game/csgo/subscribed_file_ids.txt''" "''mg_active''" "''de_train''" None False "''end''"]
    missing_or_empty_primary [of "\<lparr>files = [''game/csgo/gamemodes_server.txt'' \<mapsto> []], trace = []\<rparr>"
      "''game/csgo/gamemodes_server.txt''"
      "''game/csgo/subscribed_file_ids.txt''" "''mg_active''" "''de_train''" None False "''end''"]
  by simp

text \<open>
  C6 as stated fails: on an empty primary file the error is not \<open>MissingFile\<close>.
\<close>
theorem empty_primary_counterexample:
  "add_map_to_group \<lparr>files = [''game/csgo/gamemodes_server.txt'' \<mapsto> []], trace = []\<rparr>
      ''game/csgo/gamemodes_server.txt''
      ''game/csgo/subscribed_file_ids.txt'' ''mg_active'' ''de_train'' None False ''end''
     \<noteq> Inl (MissingFile ''game/csgo/gamemodes_server.txt'')"
  by (simp add: add_map_to_group_def read_lines_def locate_empty)




text \<open>
  C8. Let the subscription list be a file of its own, neither the primary file nor its
  backup, as it is for both path sets of \<^verbatim>\<open>resolve_paths\<close>. Then a dry run fails with the
  error, or reports the outcomes (map inserted or present, id added or present), that the
  run without dry-run reports from the same files; and a dry run that returns leaves every
  file as it was and its events create or modify no path.
\<close>
theorem dry_run_purity:
  assumes "sub \<noteq> gm" and "sub \<noteq> backup_path gm"
  shows "reported w (add_map_to_group w gm sub g name wid True pos)
           = reported w (add_map_to_group w gm sub g name wid False pos)
     \<and> (\<forall>w'. add_map_to_group w gm sub g name wid True pos = Inr w'
            \<longrightarrow> files w' = files w \<and> written_paths (new_events w w') = [])"
proof (cases "files w gm")
  case None
  then show ?thesis by (simp add: add_map_to_group_missing)
next
  case (Some raw)
  let ?lines = "splitlines True (universal_newlines raw)"
  show ?thesis
  proof (cases "find_group_and_maps_block ?lines g")
    case (Inl e)
    with Some show ?thesis by (simp add: add_map_to_group_locate_error)
  next
    case (Inr span)
    then obtain gs ms me ind where
      l: "find_group_and_maps_block ?lines g = Inr (gs, ms, me, ind)"
      by (cases span) auto
    show ?thesis
    proof (cases "current_maps_in_block ?lines ms me")
      case (Inl e)
      with Some l show ?thesis by (simp add: add_map_to_group_keys_error)
    next
      case k: (Inr keys)
      let ?key = "format_map_key name wid"
      show ?thesis
      proof (cases "?key \<in> set keys")
        case True
        let ?v = "emit (Print (MsgSkipMap g ?key)) (emit (ReadText gm) w)"
        have run: "\<And>dry. add_map_to_group w gm sub g name wid dry pos
                     = Inr (subscribe_if_given ?v sub wid dry)"
          by (rule add_map_to_group_skip [OF Some l k True])
        have tr: "trace ?v = trace w @ [ReadText gm, Print (MsgSkipMap g ?key)]" by simp
        from subscribe_if_given_trace [of ?v sub wid True] obtain es where
          es: "trace (subscribe_if_given ?v sub wid True) = trace ?v @ es"
            "written_paths es = []" "files (subscribe_if_given ?v sub wid True) = files ?v"
          by auto
        from es tr have "trace (subscribe_if_given ?v sub wid True)
            = trace w @ ([ReadText gm, Print (MsgSkipMap g ?key)] @ es)" by simp
        from new_events_append [OF this] es
        have "written_paths (new_events w (subscribe_if_given ?v sub wid True)) = []" by simp
        with es run reported_subscribe [OF tr] show ?thesis by simp
      next
        case False
        let ?d = "emit (Print (MsgAddedMap g ?key True)) (emit (ReadText gm) w)"
        let ?v = "emit (Print (MsgAddedMap g ?key False))
                 (write_lines
                    (emit (Print (MsgBackup (backup_path gm)))
                       (emit (Copy gm (backup_path gm))
                          ((emit (ReadText gm) w)\<lparr>files := (files w)(backup_path gm \<mapsto> raw)\<rparr>)))
                    gm (insert_map ?lines ms me ind ?key pos))"
        have dry: "add_map_to_group w gm sub g name wid True pos
                     = Inr (subscribe_if_given ?d sub wid True)"
          by (rule add_map_to_group_insert_dry [OF Some l k False])
        have wet: "add_map_to_group w gm sub g name wid False pos
                     = Inr (subscribe_if_given ?v sub wid False)"
          by (rule add_map_to_group_insert_written [OF Some l k False])
        have trd: "trace ?d = trace w @ [ReadText gm, Print (MsgAddedMap g ?key True)]" by simp
        have trv: "trace ?v = trace w @ [ReadText gm, Copy gm (backup_path gm),
            Print (MsgBackup (backup_path gm)), WriteText gm, Print (MsgAddedMap g ?key False)]"
          by (simp add: write_lines_def)
        from assms have same: "file_text ?v sub = file_text ?d sub"
          by (simp add: file_text_def write_lines_def)
        from subscribe_if_given_trace [of ?d sub wid True] obtain es where
          es: "trace (subscribe_if_given ?d sub wid True) = trace ?d @ es"
            "written_paths es = []" "files (subscribe_if_given ?d sub wid True) = files ?d"
          by auto
        from es trd have "trace (subscribe_if_given ?d sub wid True)
            = trace w @ ([ReadText gm, Print (MsgAddedMap g ?key True)] @ es)" by simp
        from new_events_append [OF this] es
        have "written_paths (new_events w (subscribe_if_given ?d sub wid True)) = []" by simp
        with es dry wet reported_subscribe [OF trd] reported_subscribe [OF trv] same
        show ?thesis by simp
      qed
    qed
  qed
qed

theorem dry_run_purity_witness:
  "resolve_paths False = (''game/csgo/gamemodes_server.txt'', ''game/csgo/subscribed_file_ids.txt'')
   \<and> ''game/csgo/subscribed_file_ids.txt'' \<noteq> ''game/csgo/gamemodes_server.txt''
   \<and> ''game/csgo/subscribed_file_ids.txt'' \<noteq> backup_path ''game/csgo/gamemodes_server.txt''
   \<and> add_map_to_group example_world ''game/csgo/gamemodes_server.txt''
        ''game/csgo/subscribed_file_ids.txt'' ''mg_active'' ''de_train'' None True ''end''
       = Inr (emit (Print (MsgAddedMap ''mg_active'' ''de_train'' True))
               (emit (ReadText ''game/csgo/gamemodes_server.txt'') example_world))
   \<and> files (emit (Print (MsgAddedMap ''mg_active'' ''de_train'' True))
               (emit (ReadText ''game/csgo/gamemodes_server.txt'') example_world))
       = files example_world
   \<and> reported example_world
        (add_map_to_group example_world ''game/csgo/gamemodes_server.txt''
           ''game/csgo/subscribed_file_ids.txt'' ''mg_active'' ''de_train'' None False ''end'')
       = Inr [MapInserted]"
proof -
  let ?gm = "''game/csgo/gamemodes_server.txt''" and ?sub = "''game/csgo/subscribed_file_ids.txt''"
  have p: "resolve_paths False = (?gm, ?sub)" by (simp add: resolve_paths_def)
  have d: "?sub \<noteq> ?gm" "?sub \<noteq> backup_path ?gm" by (simp_all add: backup_path_def)
  have l: "find_group_and_maps_block (splitlines True (universal_newlines (concat example_doc)))
             ''mg_active'' = Inr (4, 9, 11, [TAB, TAB, TAB, TAB])"
    by (simp only: example_doc_read example_doc_located)
  have k: "current_maps_in_block (splitlines True (universal_newlines (concat example_doc))) 9 11
             = Inr [''de_inferno'', ''workshop/12345/de_dust2'']"
    by (simp only: example_doc_read example_doc_keys)
  have n: "format_map_key ''de_train'' None \<notin> set [''de_inferno'', ''workshop/12345/de_dust2'']"
    by (simp add: format_map_key_def)
  have run: "add_map_to_group example_world ?gm ?sub ''mg_active'' ''de_train'' None True ''end''
     = Inr (emit (Print (MsgAddedMap ''mg_active'' ''de_train'' True))
              (emit (ReadText ?gm) example_world))"
    using add_map_to_group_insert_dry [OF example_world_primary l k n, of ?sub "''end''"]
    by (simp add: subscribe_if_given_def format_map_key_def)
  have r: "reported example_world (add_map_to_group example_world ?gm ?sub ''mg_active'' ''de_train''
             None True ''end'') = Inr [MapInserted]"
    by (simp add: run reported_def)
  from dry_run_purity [OF d, of example_world "''mg_active''" "''de_train''" None "''end''"] p d run r
  show ?thesis by simp
qed

text \<open>
  C9, as the code has it. For every token and list file: when the file is absent or empty,
  appending leaves it holding exactly the token and a line feed; when the token is among
  the non-blank trimmed lines, nothing is written; otherwise the token and a line feed are
  put after the text the file already has. A second append of the same token writes
  nothing when the token is non-empty, has no whitespace at either end and no line
  boundary inside, and the file was absent, empty or ended with a line terminator.
\<close>
theorem list_appender:
  "(file_text w p = [] \<longrightarrow>
      add_workshop_id w p t False
        = (emit (Append p) ((emit (Mkdir p) (probed w p))\<lparr>files := (files w)(p \<mapsto> t @ [LF])\<rparr>), True))
   \<and> (t \<in> set (existing_ids (universal_newlines (file_text w p))) \<longrightarrow>
      add_workshop_id w p t dry = (probed w p, False)
      \<and> files (fst (add_workshop_id w p t dry)) = files w
      \<and> appends (trace (fst (add_workshop_id w p t dry))) = appends (trace w))
   \<and> (t \<notin> set (existing_ids (universal_newlines (file_text w p))) \<longrightarrow>
      snd (add_workshop_id w p t False)
      \<and> files (fst (add_workshop_id w p t False)) = (files w)(p \<mapsto> file_text w p @ t @ [LF]))
   \<and> (token_clean t \<and> ends_with_newline (file_text w p) \<longrightarrow>
      \<not> snd (add_workshop_id (fst (add_workshop_id w p t False)) p t False)
      \<and> files (fst (add_workshop_id (fst (add_workshop_id w p t False)) p t False))
          = files (fst (add_workshop_id w p t False)))"
proof (intro conjI impI)
  show "add_workshop_id w p t False
        = (emit (Append p) ((emit (Mkdir p) (probed w p))\<lparr>files := (files w)(p \<mapsto> t @ [LF])\<rparr>), True)"
    if "file_text w p = []"
    using that by (simp add: add_workshop_id_eq)
next
  assume "t \<in> set (existing_ids (universal_newlines (file_text w p)))"
  then have eq: "add_workshop_id w p t dry = (probed w p, False)"
    by (simp add: add_workshop_id_eq)
  then show "add_workshop_id w p t dry = (probed w p, False)"
    and "files (fst (add_workshop_id w p t dry)) = files w"
    and "appends (trace (fst (add_workshop_id w p t dry))) = appends (trace w)"
    by (simp_all add: appends_probed)
next
  assume "t \<notin> set (existing_ids (universal_newlines (file_text w p)))"
  then show "snd (add_workshop_id w p t False)"
    and "files (fst (add_workshop_id w p t False)) = (files w)(p \<mapsto> file_text w p @ t @ [LF])"
    by (simp_all add: add_workshop_id_eq)
next
  assume a: "token_clean t \<and> ends_with_newline (file_text w p)"
  let ?w1 = "fst (add_workshop_id w p t False)"
  have "t \<in> set (existing_ids (universal_newlines (file_text ?w1 p)))"
  proof (cases "t \<in> set (existing_ids (universal_newlines (file_text w p)))")
    case True
    then show ?thesis by (simp add: add_workshop_id_eq)
  next
    case False
    then have "file_text ?w1 p = file_text w p @ t @ [LF]"
      by (simp add: add_workshop_id_eq file_text_def)
    with a existing_ids_after_append [of t "file_text w p"] show ?thesis by simp
  qed
  then have "add_workshop_id ?w1 p t False = (probed ?w1 p, False)"
    by (simp add: add_workshop_id_eq)
  then show "\<not> snd (add_workshop_id ?w1 p t False)"
    and "files (fst (add_workshop_id ?w1 p t False)) = files ?w1"
    by simp_all
qed

theorem list_appender_witness:
  "file_text \<lparr>files = Map.empty, trace = []\<rparr> ''game/csgo/subscribed_file_ids.txt'' = []
   \<and> token_clean ''3070284539''
   \<and> ends_with_newline (file_text \<lparr>files = Map.empty, trace = []\<rparr> ''game/csgo/subscribed_file_ids.txt'')
   \<and> files (fst (add_workshop_id \<lparr>files = Map.empty, trace = []\<rparr>
                   ''game/csgo/subscribed_file_ids.txt'' ''3070284539'' False))
        ''game/csgo/subscribed_file_ids.txt'' = Some (''3070284539'' @ [LF])
   \<and> \<not> snd (add_workshop_id
               (fst (add_workshop_id \<lparr>files = Map.empty, trace = []\<rparr>
                       ''game/csgo/subscribed_file_ids.txt'' ''3070284539'' False))
               ''game/csgo/subscribed_file_ids.txt'' ''3070284539'' False)
   \<and> files (fst (add_workshop_id
               (fst (add_workshop_id \<lparr>files = Map.empty, trace = []\<rparr>
                       ''game/csgo/subscribed_file_ids.txt'' ''3070284539'' False))
               ''game/csgo/subscribed_file_ids.txt'' ''3070284539'' False))
        ''game/csgo/subscribed_file_ids.txt'' = Some (''3070284539'' @ [LF])"
proof -
  let ?w = "\<lparr>files = Map.empty, trace = []\<rparr>" and ?p = "''game/csgo/subscribed_file_ids.txt''"
  have e: "file_text ?w ?p = []" by (simp add: file_text_def)
  have c: "token_clean ''3070284539''"
    by (simp add: token_clean_def strip_def lstrip_def rstrip_def is_space_def is_linebreak_def)
  have n: "ends_with_newline (file_text ?w ?p)" by (simp add: e ends_with_newline_def)
  note th = list_appender [of ?w ?p "''3070284539''" False]
  have ne: "''3070284539'' \<notin> set (existing_ids (universal_newlines (file_text ?w ?p)))"
    by (simp add: e)
  from th ne have f1: "files (fst (add_workshop_id ?w ?p ''3070284539'' False))
      = (files ?w)(?p \<mapsto> file_text ?w ?p @ ''3070284539'' @ [LF])" by blast
  from th c n have f2: "\<not> snd (add_workshop_id (fst (add_workshop_id ?w ?p ''3070284539'' False))
      ?p ''3070284539'' False)" by blast
  from th c n have f3: "files (fst (add_workshop_id (fst (add_workshop_id ?w ?p ''3070284539'' False))
      ?p ''3070284539'' False)) = files (fst (add_workshop_id ?w ?p ''3070284539'' False))" by blast
  from e c n f1 f2 f3 show ?thesis by simp
qed

text \<open>
  C9 as stated fails. Appending the token \<open>'' 7''\<close> (a space, then 7) to an absent file and
  then appending it again writes twice: the membership test compares the token with the
  trimmed line \<open>''7''\<close>.
\<close>
theorem list_appender_counterexample:
  "snd (add_workshop_id
          (fst (add_workshop_id \<lparr>files = Map.empty, trace = []\<rparr>
                  ''game/csgo/subscribed_file_ids.txt'' '' 7'' False))
          ''game/csgo/subscribed_file_ids.txt'' '' 7'' False)
   \<and> files (fst (add_workshop_id
          (fst (add_workshop_id \<lparr>files = Map.empty, trace = []\<rparr>
                  ''game/csgo/subscribed_file_ids.txt'' '' 7'' False))
          ''game/csgo/subscribed_file_ids.txt'' '' 7'' False))
        ''game/csgo/subscribed_file_ids.txt'' = Some ('' 7'' @ [LF] @ '' 7'' @ [LF])"
  by (simp add: add_workshop_id_eq file_text_def existing_ids_def splitlines_def
        strip_def lstrip_def rstrip_def is_space_def is_linebreak_def)

text \<open>
  C10. A workshop id that is the empty string is treated as no workshop id: the entry key
  is the bare map name, the whole operation returns what it returns for \<open>None\<close>, and when
  the subscription list is a file of its own (neither the primary file nor its backup) a
  successful run leaves its content as it was and no event of the run touches its path.
\<close>
theorem empty_workshop_id_as_none:
  "format_map_key name (Some []) = name
   \<and> add_map_to_group w gm sub g name (Some []) dry pos
       = add_map_to_group w gm sub g name None dry pos
   \<and> (\<forall>w'. add_map_to_group w gm sub g name (Some []) dry pos = Inr w'
            \<and> sub \<noteq> gm \<and> sub \<noteq> backup_path gm
         \<longrightarrow> files w' sub = files w sub
             \<and> (\<forall>e \<in> set (new_events w w'). sub \<notin> set (event_paths e)))"
proof (intro conjI allI impI)
  show "format_map_key name (Some []) = name"
    by (simp add: format_map_key_def)
  have k: "format_map_key name (Some []) = format_map_key name None"
    by (simp add: format_map_key_def)
  have t: "\<And>v. subscribe_if_given v sub (Some []) dry = subscribe_if_given v sub None dry"
    by (simp add: subscribe_if_given_def)
  show "add_map_to_group w gm sub g name (Some []) dry pos
       = add_map_to_group w gm sub g name None dry pos"
    unfolding add_map_to_group_def k t ..
next
  fix w'
  assume a: "add_map_to_group w gm sub g name (Some []) dry pos = Inr w'
            \<and> sub \<noteq> gm \<and> sub \<noteq> backup_path gm"
  then have run: "add_map_to_group w gm sub g name (Some []) dry pos = Inr w'"
    and d: "sub \<noteq> gm" "sub \<noteq> backup_path gm" by simp_all
  have s: "\<And>v. subscribe_if_given v sub (Some []) dry = v"
    by (simp add: subscribe_if_given_def)
  from run have "files w' sub = files w sub
             \<and> (\<forall>e \<in> set (new_events w w'). sub \<notin> set (event_paths e))"
  proof (cases rule: add_map_to_group_success_cases)
    case (skip raw gs ms me ind keys)
    from add_map_to_group_skip [OF skip, of sub dry pos] run s
    have "w' = emit (Print (MsgSkipMap g (format_map_key name (Some []))))
                 (emit (ReadText gm) w)" by simp
    with d show ?thesis by (simp add: new_events_def event_paths_def)
  next
    case (insert raw gs ms me ind keys)
    show ?thesis
    proof (cases dry)
      case True
      from add_map_to_group_insert_dry [OF insert, of sub pos] run s True
      have "w' = emit (Print (MsgAddedMap g (format_map_key name (Some [])) True))
                   (emit (ReadText gm) w)" by simp
      with d show ?thesis by (simp add: new_events_def event_paths_def)
    next
      case False
      from add_map_to_group_insert_written [OF insert, of sub pos] run s False
      have "w' = emit (Print (MsgAddedMap g (format_map_key name (Some [])) False))
                 (write_lines
                    (emit (Print (MsgBackup (backup_path gm)))
                       (emit (Copy gm (backup_path gm))
                          ((emit (ReadText gm) w)\<lparr>files := (files w)(backup_path gm \<mapsto> raw)\<rparr>)))
                    gm
                    (insert_map (splitlines True (universal_newlines raw)) ms me ind
                       (format_map_key name (Some [])) pos))" by simp
      with d show ?thesis
        by (simp add: new_events_def event_paths_def write_lines_def)
    qed
  qed
  then show "files w' sub = files w sub" 
    and "\<forall>e \<in> set (new_events w w'). sub \<notin> set (event_paths e)" by simp_all
qed

theorem empty_workshop_id_as_none_witness:
  "add_map_to_group example_world ''game/csgo/gamemodes_server.txt''
       ''game/csgo/subscribed_file_ids.txt'' ''mg_active'' ''de_train'' (Some []) True ''end''
     = Inr (emit (Print (MsgAddedMap ''mg_active'' ''de_train'' True))
              (emit (ReadText ''game/csgo/gamemodes_server.txt'') example_world))
   \<and> ''game/csgo/subscribed_file_ids.txt'' \<noteq> ''game/csgo/gamemodes_server.txt''
   \<and> ''game/csgo/subscribed_file_ids.txt'' \<noteq> backup_path ''game/csgo/gamemodes_server.txt''
   \<and> files (emit (Print (MsgAddedMap ''mg_active'' ''de_train'' True))
              (emit (ReadText ''game/csgo/gamemodes_server.txt'') example_world))
         ''game/csgo/subscribed_file_ids.txt''
       = files example_world ''game/csgo/subscribed_file_ids.txt''"
proof -
  let ?gm = "''game/csgo/gamemodes_server.txt''" and ?sub = "''game/csgo/subscribed_file_ids.txt''"
  have l: "find_group_and_maps_block (splitlines True (universal_newlines (concat example_doc)))
             ''mg_active'' = Inr (4, 9, 11, [TAB, TAB, TAB, TAB])"
    by (simp only: example_doc_read example_doc_located)
  have k: "current_maps_in_block (splitlines True (universal_newlines (concat example_doc))) 9 11
             = Inr [''de_inferno'', ''workshop/12345/de_dust2'']"
    by (simp only: example_doc_read example_doc_keys)
  have n: "format_map_key ''de_train'' (Some []) \<notin> set [''de_inferno'', ''workshop/12345/de_dust2'']"
    by (simp add: format_map_key_def)
  have run: "add_map_to_group example_world ?gm ?sub ''mg_active'' ''de_train'' (Some []) True ''end''
     = Inr (emit (Print (MsgAddedMap ''mg_active'' ''de_train'' True))
              (emit (ReadText ?gm) example_world))"
    using add_map_to_group_insert_dry [OF example_world_primary l k n, of ?sub "''end''"]
    by (simp add: subscribe_if_given_def format_map_key_def)
  have d: "?sub \<noteq> ?gm" "?sub \<noteq> backup_path ?gm" by (simp_all add: backup_path_def)
  from empty_workshop_id_as_none [of "''de_train''" example_world ?gm ?sub "''mg_active''" True "''end''"]
    run d
  show ?thesis by simp
qed

end
